theory Spec2Isabelle
  imports Complex_Main
begin

section \<open>Numbers, errors and typed arrays\<close>

text \<open>
  JavaScript numbers are doubles. The model computes over the real numbers, and in
  pipeline.js it passes the result of every sum, difference and quotient through a
  rounding \<open>rnd\<close>, as IEEE 754 arithmetic rounds the exact result of an operation;
  \<open>Math.exp\<close> is the parameter \<open>fexp\<close>, and the quotient that is stored into the
  \<open>Float32Array\<close> is rounded by the parameter \<open>fround\<close>. Nothing is assumed about \<open>rnd\<close>,
  \<open>fexp\<close> and \<open>fround\<close>; exact arithmetic is the case where \<open>rnd\<close> and \<open>fround\<close> are the
  identity and \<open>fexp\<close> is \<open>exp\<close>. There is no NaN and no infinity. The geometry of viz.js
  is computed over the real numbers. \<open>Math.random()\<close> is the parameter \<open>r\<close>.

  A \<open>TypeError\<close> is what reading a property of \<open>undefined\<close> raises.
\<close>

datatype error = TypeError | NotLoaded

type_synonym addr = nat

text \<open>
  The numeric arrays (\<open>logits\<close>, \<open>scaled\<close>) live in a store: an array reference is an
  index into the list of allocated arrays, and allocation appends.
\<close>

type_synonym heap = "real list list"

definition newFloat32Array :: "nat \<Rightarrow> heap \<Rightarrow> addr \<times> heap" where
  "newFloat32Array n h = (length h, h @ [replicate n 0])"

definition readAt :: "heap \<Rightarrow> addr \<Rightarrow> nat \<Rightarrow> real" where
  "readAt h a i = h ! a ! i"

definition writeAt :: "heap \<Rightarrow> addr \<Rightarrow> nat \<Rightarrow> real \<Rightarrow> heap" where
  "writeAt h a i v = h[a := (h ! a)[i := v]]"

section \<open>pipeline.js: computePredictions\<close>

record item =
  val :: real
  rawLogit :: real
  idx :: nat

record exp_item = item +
  expv :: real

record prediction =
  word :: string
  prob :: real
  logit :: real
  tokenId :: nat
  inNucleus :: bool
  isSampled :: bool
  nucleusProb :: real

text \<open>Step 1: \<open>for (i = 0; i < logits.length; i++) scaled[i] = logits[i] / t\<close>.\<close>

definition scaleStep :: "(real \<Rightarrow> real) \<Rightarrow> addr \<Rightarrow> addr \<Rightarrow> real \<Rightarrow> nat \<Rightarrow> heap \<Rightarrow> heap" where
  "scaleStep fround logits scaled t i h = writeAt h scaled i (fround (readAt h logits i / t))"

definition scaleLoop :: "(real \<Rightarrow> real) \<Rightarrow> addr \<Rightarrow> addr \<Rightarrow> real \<Rightarrow> nat \<Rightarrow> heap \<Rightarrow> heap" where
  "scaleLoop fround logits scaled t n h = fold (scaleStep fround logits scaled t) [0..<n] h"

text \<open>Step 2: the \<open>indexed\<close> array, its sort and the slice.\<close>

definition mkIndexed :: "heap \<Rightarrow> addr \<Rightarrow> addr \<Rightarrow> item list" where
  "mkIndexed h logits scaled =
     map (\<lambda>i. \<lparr>val = readAt h scaled i, rawLogit = readAt h logits i, idx = i\<rparr>)
       [0..<length (h ! scaled)]"

text \<open>The comparator \<open>(a, b) => b.val - a.val\<close>.\<close>

definition cmp :: "item \<Rightarrow> item \<Rightarrow> real" where
  "cmp a b = val b - val a"

text \<open>
  \<open>Array.prototype.sort\<close> is stable: \<open>a\<close> is placed before \<open>b\<close> when \<open>cmp a b < 0\<close>, after
  it when \<open>cmp a b > 0\<close>, and elements that compare equal keep their order. Insertion from
  the right end is one such sort.
\<close>

fun insertItem :: "item \<Rightarrow> item list \<Rightarrow> item list" where
  "insertItem a [] = [a]"
| "insertItem a (b # bs) = (if cmp a b \<le> 0 then a # b # bs else b # insertItem a bs)"

definition sortItems :: "item list \<Rightarrow> item list" where
  "sortItems xs = foldr insertItem xs []"

text \<open>Step 3: softmax over the slice; \<open>topItems[0].val\<close> raises on an empty slice.\<close>

definition withExp :: "(real \<Rightarrow> real) \<Rightarrow> (real \<Rightarrow> real) \<Rightarrow> real \<Rightarrow> item \<Rightarrow> exp_item" where
  "withExp fexp rnd maxVal it =
     \<lparr>val = val it, rawLogit = rawLogit it, idx = idx it,
      expv = fexp (rnd (val it - maxVal))\<rparr>"

definition toPrediction ::
  "(real \<Rightarrow> real) \<Rightarrow> (nat \<Rightarrow> string) \<Rightarrow> real \<Rightarrow> exp_item \<Rightarrow> prediction" where
  "toPrediction rnd decodeToken sumExp it =
     \<lparr>word = decodeToken (idx it), prob = rnd (expv it / sumExp), logit = rawLogit it,
      tokenId = idx it, inNucleus = False, isSampled = False, nucleusProb = 0\<rparr>"

definition softmaxTop ::
  "(real \<Rightarrow> real) \<Rightarrow> (real \<Rightarrow> real) \<Rightarrow> (nat \<Rightarrow> string) \<Rightarrow> item list
     \<Rightarrow> error + prediction list" where
  "softmaxTop fexp rnd decodeToken topItems =
     (case topItems of
        [] \<Rightarrow> Inl TypeError
      | first # _ \<Rightarrow>
          (let maxVal = val first;
               exps = map (withExp fexp rnd maxVal) topItems;
               sumExp = foldl (\<lambda>sum it. rnd (sum + expv it)) 0 exps
           in Inr (map (toPrediction rnd decodeToken sumExp) exps)))"

text \<open>Step 4: the nucleus loop, with its \<open>break\<close>.\<close>

fun markNucleus ::
  "(real \<Rightarrow> real) \<Rightarrow> real \<Rightarrow> real \<Rightarrow> prediction list \<Rightarrow> prediction list" where
  "markNucleus rnd cumProb topP [] = []"
| "markNucleus rnd cumProb topP (pred # rest) =
     (if rnd (cumProb + prob pred) \<ge> topP
      then pred\<lparr>inNucleus := True\<rparr> # rest
      else pred\<lparr>inNucleus := True\<rparr> # markNucleus rnd (rnd (cumProb + prob pred)) topP rest)"

text \<open>
  Step 5: \<open>nucleus\<close> holds references to the objects of \<open>predictions\<close>, so it is the list
  of their positions, and a write through it is a write into \<open>predictions\<close>.
\<close>

definition nucleusRefs :: "prediction list \<Rightarrow> nat list" where
  "nucleusRefs ps = filter (\<lambda>i. inNucleus (ps ! i)) [0..<length ps]"

definition renormalize ::
  "(real \<Rightarrow> real) \<Rightarrow> nat list \<Rightarrow> prediction list \<Rightarrow> prediction list" where
  "renormalize rnd nucleus ps =
     (let nucleusSum = foldl (\<lambda>s i. rnd (s + prob (ps ! i))) 0 nucleus
      in fold (\<lambda>i qs. qs[i := (qs ! i)\<lparr>nucleusProb := rnd (prob (qs ! i) / nucleusSum)\<rparr>])
           nucleus ps)"

text \<open>Step 6: the sampling loop, with its \<open>break\<close>, and the fallback.\<close>

fun sampleLoop ::
  "(real \<Rightarrow> real) \<Rightarrow> real \<Rightarrow> real \<Rightarrow> nat list \<Rightarrow> prediction list \<Rightarrow> prediction list" where
  "sampleLoop rnd r cum [] ps = ps"
| "sampleLoop rnd r cum (i # rest) ps =
     (if r \<le> rnd (cum + nucleusProb (ps ! i))
      then ps[i := (ps ! i)\<lparr>isSampled := True\<rparr>]
      else sampleLoop rnd r (rnd (cum + nucleusProb (ps ! i))) rest ps)"

definition fallback :: "nat list \<Rightarrow> prediction list \<Rightarrow> error + prediction list" where
  "fallback nucleus ps =
     (if \<not> list_ex (\<lambda>i. isSampled (ps ! i)) nucleus
      then (case nucleus of
              [] \<Rightarrow> Inl TypeError
            | i # _ \<Rightarrow> Inr (ps[i := (ps ! i)\<lparr>isSampled := True\<rparr>]))
      else Inr ps)"

definition sampleNucleus ::
  "(real \<Rightarrow> real) \<Rightarrow> real \<Rightarrow> real \<Rightarrow> prediction list \<Rightarrow> error + prediction list" where
  "sampleNucleus rnd r topP predictions =
     (let marked = markNucleus rnd 0 topP predictions;
          nucleus = nucleusRefs marked
      in fallback nucleus (sampleLoop rnd r 0 nucleus (renormalize rnd nucleus marked)))"

definition computePredictions ::
  "(real \<Rightarrow> real) \<Rightarrow> (real \<Rightarrow> real) \<Rightarrow> (real \<Rightarrow> real) \<Rightarrow> (nat \<Rightarrow> string) \<Rightarrow> real
     \<Rightarrow> heap \<Rightarrow> addr \<Rightarrow> real \<Rightarrow> nat \<Rightarrow> real \<Rightarrow> heap \<times> (error + prediction list)" where
  "computePredictions fexp rnd fround decodeToken r h logits temperature topK topP =
     (let (scaled, h1) = newFloat32Array (length (h ! logits)) h;
          t = max temperature (1 / 100);
          h2 = scaleLoop fround logits scaled t (length (h ! logits)) h1;
          indexed = mkIndexed h2 logits scaled;
          topItems = take topK (sortItems indexed)
      in (h2, case softmaxTop fexp rnd decodeToken topItems of
                Inl e \<Rightarrow> Inl e
              | Inr predictions \<Rightarrow> sampleNucleus rnd r topP predictions))"

section \<open>pipeline.js: module state, run and recomputePredictions\<close>

record token =
  tok_id :: nat
  tok_text :: string

record modelConfig =
  layers :: nat
  hidden_dim :: nat
  ffn_dim :: nat
  vocab_size :: nat
  heads :: nat

text \<open>config.js: the three values the pipeline reads with \<open>config.get\<close>.\<close>

record config =
  cfg_temperature :: real
  cfg_topK :: nat
  cfg_topP :: real

text \<open>
  models.js is the inference provider: \<open>tokenize\<close> and \<open>forward\<close> raise when nothing is
  loaded, \<open>forward\<close> returns a new array of scores.
\<close>

record 'e models =
  m_tokenize :: "string \<Rightarrow> error + token list \<times> 'e"
  m_forward :: "'e \<Rightarrow> error + real list"
  m_decodeToken :: "nat \<Rightarrow> string"
  m_getConfig :: "modelConfig option"

record pipelineState =
  lastLogits :: "addr option"
  lastTokens :: "token list option"
  lastModelConfig :: "modelConfig option"
  currentText :: string

definition run ::
  "'e models \<Rightarrow> (real \<Rightarrow> real) \<Rightarrow> (real \<Rightarrow> real) \<Rightarrow> (real \<Rightarrow> real) \<Rightarrow> real \<Rightarrow> config
     \<Rightarrow> string \<Rightarrow> pipelineState \<Rightarrow> heap
     \<Rightarrow> pipelineState \<times> heap \<times> (error + token list \<times> prediction list \<times> modelConfig option)" where
  "run M fexp rnd fround r cfg text st h =
     (let st1 = st\<lparr>currentText := text, lastModelConfig := m_getConfig M\<rparr>
      in case m_tokenize M text of
           Inl e \<Rightarrow> (st1, h, Inl e)
         | Inr (tokens, encoded) \<Rightarrow>
             (let st2 = st1\<lparr>lastTokens := Some tokens\<rparr>
              in case m_forward M encoded of
                   Inl e \<Rightarrow> (st2, h, Inl e)
                 | Inr scores \<Rightarrow>
                     (let logits = length h;
                          h1 = h @ [scores];
                          st3 = st2\<lparr>lastLogits := Some logits\<rparr>;
                          (h2, res) = computePredictions fexp rnd fround (m_decodeToken M) r h1
                                        logits (cfg_temperature cfg) (cfg_topK cfg) (cfg_topP cfg)
                      in (st3, h2,
                          case res of
                            Inl e \<Rightarrow> Inl e
                          | Inr predictions \<Rightarrow> Inr (tokens, predictions, lastModelConfig st3)))))"

definition recomputePredictions ::
  "(real \<Rightarrow> real) \<Rightarrow> (real \<Rightarrow> real) \<Rightarrow> (real \<Rightarrow> real) \<Rightarrow> (nat \<Rightarrow> string) \<Rightarrow> real \<Rightarrow> config
     \<Rightarrow> pipelineState \<Rightarrow> heap \<Rightarrow> heap \<times> (error + prediction list option)" where
  "recomputePredictions fexp rnd fround decodeToken r cfg st h =
     (case lastLogits st of
        None \<Rightarrow> (h, Inr None)
      | Some logits \<Rightarrow>
          (let (h2, res) = computePredictions fexp rnd fround decodeToken r h logits
                             (cfg_temperature cfg) (cfg_topK cfg) (cfg_topP cfg)
           in (h2, case res of Inl e \<Rightarrow> Inl e | Inr predictions \<Rightarrow> Inr (Some predictions))))"

section \<open>viz.js: scene, camera and pointer state\<close>

definition NODE_RADIUS :: real where "NODE_RADIUS = 6"
definition COLUMN_GAP :: real where "COLUMN_GAP = 70"
definition ROW_GAP :: real where "ROW_GAP = 36"
definition TOP_PADDING :: real where "TOP_PADDING = 50"
definition LEFT_PADDING :: real where "LEFT_PADDING = 100"
definition MIN_LOGIT_GAP :: real where "MIN_LOGIT_GAP = 22"

datatype ntype = TokenT | EmbeddingT | TransformerT | LogitT

text \<open>
  A node object has the properties its column gives it; a property it lacks is \<open>None\<close>.
\<close>

record node =
  n_x :: real
  n_y :: real
  n_label :: string
  n_id :: "nat option"
  n_type :: ntype
  n_index :: nat
  n_tokenText :: "string option"
  n_layer :: "nat option"
  n_word :: "string option"
  n_prob :: "real option"
  n_logit :: "real option"

record column =
  c_label :: string
  c_color :: string
  c_nodes :: "node list"
  c_type :: ntype

record bar =
  b_x :: real
  b_y :: real
  b_word :: string
  b_prob :: real
  b_logit :: real
  b_inNucleus :: bool
  b_isSampled :: bool
  b_nucleusProb :: real
  b_isWinner :: bool

record particle =
  p_startX :: real
  p_startY :: real
  p_targetX :: real
  p_targetY :: real
  p_x :: real
  p_y :: real
  p_progress :: real
  p_word :: string

text \<open>What the hover hit test finds: \<open>{...bar, type: 'output'}\<close> or a node.\<close>

datatype hit = HitBar bar | HitNode node

record viz =
  columns :: "column list"
  outputBars :: "bar list"
  animProgress :: real
  animTarget :: real
  isAnimating :: bool
  currentModelCfg :: "modelConfig option"
  zoom :: real
  panX :: real
  panY :: real
  isDragging :: bool
  dragStartX :: real
  dragStartY :: real
  panStartX :: real
  panStartY :: real
  hoveredNode :: "hit option"
  travelParticle :: "particle option"

text \<open>The module's initial values; nothing is hovered and no scene exists.\<close>

definition initViz :: viz where
  "initViz = \<lparr>columns = [], outputBars = [], animProgress = 0, animTarget = 1,
     isAnimating = False, currentModelCfg = None, zoom = 1, panX = 0, panY = 0,
     isDragging = False, dragStartX = 0, dragStartY = 0, panStartX = 0, panStartY = 0,
     hoveredNode = None, travelParticle = None\<rparr>"

text \<open>
  A pointer event with the canvas rectangle it is measured against
  (\<open>canvas.getBoundingClientRect()\<close>).
\<close>

record pointer =
  clientX :: real
  clientY :: real
  deltaY :: real
  rectLeft :: real
  rectTop :: real

text \<open>utils: \<open>clamp(val, min, max) = Math.min(Math.max(val, min), max)\<close>.\<close>

definition clamp :: "real \<Rightarrow> real \<Rightarrow> real \<Rightarrow> real" where
  "clamp v lo hi = min (max v lo) hi"

section \<open>viz.js: build\<close>

text \<open>
  \<open>trim\<close> (\<open>String.prototype.trim\<close>) and \<open>fmt\<close> (\<open>num.toFixed(decimals)\<close>) only produce
  labels and are parameters. \<open>canvasW\<close> and \<open>canvasH\<close> are \<open>canvas.clientWidth\<close> and
  \<open>canvas.clientHeight\<close> when the function runs. Drawing changes no state and is left out.
\<close>

definition blankLabel :: string where
  "blankLabel = [CHR 0xE2, CHR 0x8E, CHR 0xB5]"

fun decimal :: "nat \<Rightarrow> string" where
  "decimal n = (if n < 10 then [char_of (48 + n)] else decimal (n div 10) @ [char_of (48 + n mod 10)])"

declare decimal.simps [simp del]

definition tokenNode :: "(string \<Rightarrow> string) \<Rightarrow> real \<Rightarrow> real \<Rightarrow> token list \<Rightarrow> nat \<Rightarrow> node" where
  "tokenNode trim x startY tokens i =
     \<lparr>n_x = x, n_y = startY + real i * ROW_GAP,
      n_label = (if trim (tok_text (tokens ! i)) = [] then blankLabel else trim (tok_text (tokens ! i))),
      n_id = Some (tok_id (tokens ! i)), n_type = TokenT, n_index = i,
      n_tokenText = None, n_layer = None, n_word = None, n_prob = None, n_logit = None\<rparr>"

definition embedNode :: "(string \<Rightarrow> string) \<Rightarrow> real \<Rightarrow> real \<Rightarrow> token list \<Rightarrow> nat \<Rightarrow> node" where
  "embedNode trim x startY tokens i =
     \<lparr>n_x = x, n_y = startY + real i * ROW_GAP, n_label = [],
      n_id = Some (tok_id (tokens ! i)), n_type = EmbeddingT, n_index = i,
      n_tokenText = Some (trim (tok_text (tokens ! i))), n_layer = None,
      n_word = None, n_prob = None, n_logit = None\<rparr>"

definition layerNode :: "real \<Rightarrow> real \<Rightarrow> nat \<Rightarrow> nat \<Rightarrow> node" where
  "layerNode x startY l i =
     \<lparr>n_x = x, n_y = startY + real i * ROW_GAP, n_label = [],
      n_id = None, n_type = TransformerT, n_index = i,
      n_tokenText = None, n_layer = Some l, n_word = None, n_prob = None, n_logit = None\<rparr>"

definition layerColumn :: "real \<Rightarrow> real \<Rightarrow> nat \<Rightarrow> nat \<Rightarrow> column" where
  "layerColumn x startY nodesPerLayer l =
     \<lparr>c_label = ''L'' @ decimal (l + 1), c_color = ''#a78bfa'',
      c_nodes = map (layerNode x startY l) [0..<nodesPerLayer], c_type = TransformerT\<rparr>"

text \<open>The loop over the layers: each round pushes a column and moves \<open>x\<close> on.\<close>

definition layerStep :: "real \<Rightarrow> nat \<Rightarrow> nat \<Rightarrow> real \<times> column list \<Rightarrow> real \<times> column list" where
  "layerStep startY nodesPerLayer l xc =
     (fst xc + COLUMN_GAP, snd xc @ [layerColumn (fst xc) startY nodesPerLayer l])"

definition layerLoop :: "real \<Rightarrow> nat \<Rightarrow> nat \<Rightarrow> real \<times> column list \<Rightarrow> real \<times> column list" where
  "layerLoop startY nodesPerLayer numLayers xc =
     fold (layerStep startY nodesPerLayer) [0..<numLayers] xc"

definition logitNode ::
  "(real \<Rightarrow> nat \<Rightarrow> string) \<Rightarrow> real \<Rightarrow> real \<Rightarrow> real \<Rightarrow> prediction list \<Rightarrow> nat \<Rightarrow> node" where
  "logitNode fmt x logitStartY actualLogitGap predictions i =
     \<lparr>n_x = x, n_y = logitStartY + real i * actualLogitGap,
      n_label = fmt (logit (predictions ! i)) 2,
      n_id = None, n_type = LogitT, n_index = i, n_tokenText = None, n_layer = None,
      n_word = Some (word (predictions ! i)), n_prob = Some (prob (predictions ! i)),
      n_logit = Some (logit (predictions ! i))\<rparr>"

text \<open>\<open>p.nucleusProb || 0\<close>: a number that is zero is replaced by zero.\<close>

definition orZero :: "real \<Rightarrow> real" where
  "orZero v = (if v = 0 then 0 else v)"

definition outputBar :: "real \<Rightarrow> real \<Rightarrow> real \<Rightarrow> prediction list \<Rightarrow> nat \<Rightarrow> bar" where
  "outputBar x logitStartY actualLogitGap predictions i =
     \<lparr>b_x = x, b_y = logitStartY + real i * actualLogitGap,
      b_word = word (predictions ! i), b_prob = prob (predictions ! i),
      b_logit = logit (predictions ! i), b_inNucleus = inNucleus (predictions ! i),
      b_isSampled = isSampled (predictions ! i),
      b_nucleusProb = orZero (nucleusProb (predictions ! i)), b_isWinner = (i = 0)\<rparr>"

definition animate :: "viz \<Rightarrow> viz" where
  "animate s =
     (let s1 = s\<lparr>animProgress := animProgress s + 8 / 1000\<rparr>
      in if animProgress s1 \<ge> animTarget s1
         then s1\<lparr>animProgress := animTarget s1, isAnimating := False\<rparr>
         else s1)"

definition startAnimation :: "viz \<Rightarrow> viz" where
  "startAnimation s = animate (s\<lparr>animProgress := 0, animTarget := 1, isAnimating := True\<rparr>)"

definition build ::
  "(string \<Rightarrow> string) \<Rightarrow> (real \<Rightarrow> nat \<Rightarrow> string) \<Rightarrow> real \<Rightarrow> real
     \<Rightarrow> token list \<Rightarrow> modelConfig \<Rightarrow> prediction list \<Rightarrow> viz \<Rightarrow> viz" where
  "build trim fmt canvasW canvasH tokens modelCfg predictions s =
     (let numTokens = length tokens;
          numLayers = layers modelCfg;
          nodesPerLayer = numTokens;
          startY = TOP_PADDING + 30;
          x0 = LEFT_PADDING;
          tokenNodes = map (tokenNode trim x0 startY tokens) [0..<numTokens];
          cols1 = [\<lparr>c_label = ''TOKENS'', c_color = ''#4ea8de'', c_nodes = tokenNodes,
                    c_type = TokenT\<rparr>];
          x1 = x0 + COLUMN_GAP;
          embedNodes = map (embedNode trim x1 startY tokens) [0..<numTokens];
          cols2 = cols1 @ [\<lparr>c_label = ''EMBEDDINGS'', c_color = ''#34d399'', c_nodes = embedNodes,
                            c_type = EmbeddingT\<rparr>];
          x2 = x1 + COLUMN_GAP;
          (x3, cols3) = layerLoop startY nodesPerLayer numLayers (x2, cols2);
          numPreds = length predictions;
          logitStartY = startY;
          actualLogitGap = max MIN_LOGIT_GAP
            (min ROW_GAP (((real numTokens - 1) * ROW_GAP) / max (real numPreds - 1) 1));
          logitNodes = map (logitNode fmt x3 logitStartY actualLogitGap predictions) [0..<numPreds];
          cols4 = cols3 @ [\<lparr>c_label = ''LOGITS'', c_color = ''#f472b6'', c_nodes = logitNodes,
                            c_type = LogitT\<rparr>];
          x4 = x3 + (COLUMN_GAP + 10);
          bars = map (outputBar x4 logitStartY actualLogitGap predictions) [0..<numPreds];
          totalWidth = x4 + 280;
          totalNodeHeight = max ((real numTokens - 1) * ROW_GAP + TOP_PADDING + 80)
                                ((real numPreds - 1) * actualLogitGap + TOP_PADDING + 80);
          zoom1 = min (min (canvasW / totalWidth) (canvasH / totalNodeHeight)) (3 / 2);
          zoom2 = max zoom1 (3 / 10);
          panX1 = (canvasW - totalWidth * zoom2) / 2;
          panY1 = (canvasH - totalNodeHeight * zoom2) / 2;
          panY2 = max panY1 10
      in startAnimation
           (s\<lparr>columns := cols4, outputBars := bars, animProgress := 0, animTarget := 1,
              currentModelCfg := Some modelCfg, zoom := zoom2, panX := panX1, panY := panY2\<rparr>))"

section \<open>viz.js: updatePredictions\<close>

definition patchNode :: "(real \<Rightarrow> nat \<Rightarrow> string) \<Rightarrow> prediction \<Rightarrow> node \<Rightarrow> node" where
  "patchNode fmt p n =
     n\<lparr>n_label := fmt (logit p) 2, n_word := Some (word p), n_prob := Some (prob p),
       n_logit := Some (logit p)\<rparr>"

definition patchNodes :: "(real \<Rightarrow> nat \<Rightarrow> string) \<Rightarrow> prediction list \<Rightarrow> node list \<Rightarrow> node list" where
  "patchNodes fmt predictions nodes =
     fold (\<lambda>i ns. if i < length ns then ns[i := patchNode fmt (predictions ! i) (ns ! i)] else ns)
       [0..<length predictions] nodes"

definition patchBar :: "prediction \<Rightarrow> nat \<Rightarrow> bar \<Rightarrow> bar" where
  "patchBar p i b =
     b\<lparr>b_word := word p, b_prob := prob p, b_logit := logit p, b_inNucleus := inNucleus p,
       b_isSampled := isSampled p, b_nucleusProb := orZero (nucleusProb p), b_isWinner := (i = 0)\<rparr>"

definition patchBars :: "prediction list \<Rightarrow> bar list \<Rightarrow> bar list" where
  "patchBars predictions bars =
     fold (\<lambda>i bs. if i < length predictions then bs[i := patchBar (predictions ! i) i (bs ! i)] else bs)
       [0..<length bars] bars"

text \<open>\<open>columns.find(c => c.type === 'logit')\<close>, as the position of the column found.\<close>

fun findLogit :: "column list \<Rightarrow> nat option" where
  "findLogit [] = None"
| "findLogit (c # cs) =
     (if c_type c = LogitT then Some 0
      else (case findLogit cs of None \<Rightarrow> None | Some i \<Rightarrow> Some (Suc i)))"

definition updatePredictions :: "(real \<Rightarrow> nat \<Rightarrow> string) \<Rightarrow> prediction list \<Rightarrow> viz \<Rightarrow> viz" where
  "updatePredictions fmt predictions s =
     (if columns s = [] then s
      else
        (let cols = (case findLogit (columns s) of
                       None \<Rightarrow> columns s
                     | Some k \<Rightarrow> (columns s)[k := (columns s ! k)
                         \<lparr>c_nodes := patchNodes fmt predictions (c_nodes (columns s ! k))\<rparr>])
         in s\<lparr>columns := cols, outputBars := patchBars predictions (outputBars s)\<rparr>))"

section \<open>viz.js: zoom, pan and hover\<close>

definition handleWheel :: "pointer \<Rightarrow> viz \<Rightarrow> viz" where
  "handleWheel e s =
     (let mx = clientX e - rectLeft e;
          my = clientY e - rectTop e;
          prevZoom = zoom s;
          delta = (if deltaY e > 0 then 9 / 10 else 11 / 10);
          zoom1 = clamp (zoom s * delta) (15 / 100) 4
      in s\<lparr>zoom := zoom1,
           panX := mx - (mx - panX s) * (zoom1 / prevZoom),
           panY := my - (my - panY s) * (zoom1 / prevZoom)\<rparr>)"

definition handleMouseDown :: "pointer \<Rightarrow> viz \<Rightarrow> viz" where
  "handleMouseDown e s =
     s\<lparr>isDragging := True, dragStartX := clientX e, dragStartY := clientY e,
       panStartX := panX s, panStartY := panY s\<rparr>"

text \<open>The two hit loops, each with its \<open>break\<close>.\<close>

fun findBar :: "bar list \<Rightarrow> real \<Rightarrow> real \<Rightarrow> hit option" where
  "findBar [] mx my = None"
| "findBar (b # bs) mx my =
     (if (mx - b_x b) * (mx - b_x b) + (my - b_y b) * (my - b_y b) < 64
      then Some (HitBar b) else findBar bs mx my)"

fun findInColumn :: "node list \<Rightarrow> real \<Rightarrow> real \<Rightarrow> hit option" where
  "findInColumn [] mx my = None"
| "findInColumn (n # ns) mx my =
     (if (mx - n_x n) * (mx - n_x n) + (my - n_y n) * (my - n_y n)
           < (NODE_RADIUS + 4) * (NODE_RADIUS + 4)
      then Some (HitNode n) else findInColumn ns mx my)"

fun findNode :: "column list \<Rightarrow> real \<Rightarrow> real \<Rightarrow> hit option" where
  "findNode [] mx my = None"
| "findNode (c # cs) mx my =
     (case findInColumn (c_nodes c) mx my of
        Some f \<Rightarrow> Some f
      | None \<Rightarrow> findNode cs mx my)"

definition hitTest :: "viz \<Rightarrow> real \<Rightarrow> real \<Rightarrow> hit option" where
  "hitTest s mx my =
     (case findBar (outputBars s) mx my of
        Some f \<Rightarrow> Some f
      | None \<Rightarrow> findNode (columns s) mx my)"

text \<open>
  \<open>handleMouseMove\<close>: a drag pans; otherwise the pointer is taken to scene space and
  \<open>found\<close> becomes the hovered node. The zone callback and the tooltip are display
  effects and are left out.
\<close>

definition found :: "pointer \<Rightarrow> viz \<Rightarrow> hit option" where
  "found e s =
     (let mx = (clientX e - rectLeft e - panX s) / zoom s;
          my = (clientY e - rectTop e - panY s) / zoom s
      in hitTest s mx my)"

definition handleMouseMove :: "pointer \<Rightarrow> viz \<Rightarrow> viz" where
  "handleMouseMove e s =
     (if isDragging s
      then s\<lparr>panX := panStartX s + (clientX e - dragStartX s),
             panY := panStartY s + (clientY e - dragStartY s)\<rparr>
      else s\<lparr>hoveredNode := found e s\<rparr>)"

definition handleMouseUp :: "viz \<Rightarrow> viz" where
  "handleMouseUp s = s\<lparr>isDragging := False\<rparr>"

definition handleMouseLeave :: "viz \<Rightarrow> viz" where
  "handleMouseLeave s = s\<lparr>isDragging := False, hoveredNode := None\<rparr>"

definition zoomIn :: "viz \<Rightarrow> viz" where
  "zoomIn s = s\<lparr>zoom := clamp (zoom s * (13 / 10)) (15 / 100) 4\<rparr>"

definition zoomOut :: "viz \<Rightarrow> viz" where
  "zoomOut s = s\<lparr>zoom := clamp (zoom s * (7 / 10)) (15 / 100) 4\<rparr>"

definition clear :: "viz \<Rightarrow> viz" where
  "clear s = s\<lparr>columns := [], outputBars := [], travelParticle := None, hoveredNode := None,
               currentModelCfg := None, animProgress := 0\<rparr>"

text \<open>
  \<open>Math.min(...xs)\<close> and \<open>Math.max(...xs)\<close> of a non-empty argument list. Of no arguments
  they are the two infinities, which are not real numbers: \<open>resetView\<close> treats that case
  by itself.
\<close>

fun minOf :: "real list \<Rightarrow> real" where
  "minOf (x # xs) = fold min xs x"

fun maxOf :: "real list \<Rightarrow> real" where
  "maxOf (x # xs) = fold max xs x"

text \<open>The value of an offset that JavaScript computes as NaN: no real number.\<close>

definition NaN :: real where
  "NaN = undefined"

text \<open>
  \<open>resetView\<close>. When the scene has columns but neither nodes nor bars, \<open>contentW\<close> and
  \<open>contentH\<close> are minus infinity, both quotients are \<open>-0\<close>, so \<open>zoom\<close> becomes
  \<open>Math.max(-0, 0.3) = 0.3\<close>, and the offsets are NaN.
\<close>

definition resetView :: "real \<Rightarrow> real \<Rightarrow> viz \<Rightarrow> viz" where
  "resetView canvasW canvasH s =
     (if columns s \<noteq> [] then
        (let allNodes = concat (map c_nodes (columns s));
             allX = map n_x allNodes @ map (\<lambda>b. b_x b + 280) (outputBars s);
             allY = map n_y allNodes @ map b_y (outputBars s)
         in if allX = [] then s\<lparr>zoom := 3 / 10, panX := NaN, panY := NaN\<rparr>
            else
              (let minX = minOf allX - 80;
                   maxX = maxOf allX + 80;
                   minY = minOf allY - 60;
                   maxY = maxOf allY + 60;
                   contentW = maxX - minX;
                   contentH = maxY - minY;
                   zoom1 = min (min (canvasW / contentW) (canvasH / contentH)) (3 / 2);
                   zoom2 = max zoom1 (3 / 10)
               in s\<lparr>zoom := zoom2,
                    panX := (canvasW - contentW * zoom2) / 2 - minX * zoom2,
                    panY := (canvasH - contentH * zoom2) / 2 - minY * zoom2\<rparr>))
      else s)"

section \<open>The operations of viz.js as a state machine\<close>

text \<open>
  The functions of viz.js that write the scene, the camera, the drag state or the hovered
  node, each as one operation; \<open>Frame\<close> is an animation frame of the reveal, which runs
  only while \<open>isAnimating\<close>. The glow timer and the token-travel animation write only
  \<open>glowTime\<close> and \<open>travelParticle\<close> and are left out.
\<close>

datatype op =
    Build real real "token list" modelConfig "prediction list"
  | UpdatePredictions "prediction list"
  | Wheel pointer
  | MouseDown pointer
  | MouseMove pointer
  | MouseUp
  | MouseLeave
  | ZoomIn
  | ZoomOut
  | Clear
  | ResetView real real
  | Frame

fun step :: "(string \<Rightarrow> string) \<Rightarrow> (real \<Rightarrow> nat \<Rightarrow> string) \<Rightarrow> op \<Rightarrow> viz \<Rightarrow> viz" where
  "step trim fmt (Build canvasW canvasH tokens modelCfg predictions) s =
     build trim fmt canvasW canvasH tokens modelCfg predictions s"
| "step trim fmt (UpdatePredictions predictions) s = updatePredictions fmt predictions s"
| "step trim fmt (Wheel e) s = handleWheel e s"
| "step trim fmt (MouseDown e) s = handleMouseDown e s"
| "step trim fmt (MouseMove e) s = handleMouseMove e s"
| "step trim fmt MouseUp s = handleMouseUp s"
| "step trim fmt MouseLeave s = handleMouseLeave s"
| "step trim fmt ZoomIn s = zoomIn s"
| "step trim fmt ZoomOut s = zoomOut s"
| "step trim fmt Clear s = clear s"
| "step trim fmt (ResetView canvasW canvasH) s = resetView canvasW canvasH s"
| "step trim fmt Frame s = (if isAnimating s then animate s else s)"

definition runOps :: "(string \<Rightarrow> string) \<Rightarrow> (real \<Rightarrow> nat \<Rightarrow> string) \<Rightarrow> op list \<Rightarrow> viz \<Rightarrow> viz" where
  "runOps trim fmt ops s = fold (step trim fmt) ops s"

section \<open>Notions used to state the properties\<close>

text \<open>
  The ranking the sort produces: a larger scaled score first, and among equal scaled
  scores the smaller index first.
\<close>

definition before :: "item \<Rightarrow> item \<Rightarrow> bool" where
  "before a b \<longleftrightarrow> val a > val b \<or> (val a = val b \<and> idx a < idx b)"

definition ranksBefore :: "(nat \<Rightarrow> real) \<Rightarrow> nat \<Rightarrow> nat \<Rightarrow> bool" where
  "ranksBefore sc i j \<longleftrightarrow> sc i > sc j \<or> (sc i = sc j \<and> i < j)"

text \<open>The scaled score of candidate \<open>i\<close>, as stored in \<open>scaled[i]\<close>.\<close>

definition scaledScore :: "(real \<Rightarrow> real) \<Rightarrow> real list \<Rightarrow> real \<Rightarrow> nat \<Rightarrow> real" where
  "scaledScore fround scores temperature i = fround (scores ! i / max temperature (1 / 100))"

definition scaledItems :: "(real \<Rightarrow> real) \<Rightarrow> real list \<Rightarrow> real \<Rightarrow> item list" where
  "scaledItems fround scores t =
     map (\<lambda>i. \<lparr>val = fround (scores ! i / t), rawLogit = scores ! i, idx = i\<rparr>) [0..<length scores]"

text \<open>
  The value of a variable that starts at 0 and to which the members of \<open>xs\<close> are added in
  turn, each sum rounded.
\<close>

definition runningSum :: "(real \<Rightarrow> real) \<Rightarrow> real list \<Rightarrow> real" where
  "runningSum rnd xs = foldl (\<lambda>s x. rnd (s + x)) 0 xs"

text \<open>A prediction list whose first \<open>n\<close> members are the renormalized nucleus.\<close>

definition withNucleus :: "(real \<Rightarrow> real) \<Rightarrow> nat \<Rightarrow> prediction list \<Rightarrow> prediction list" where
  "withNucleus rnd n ps =
     map (\<lambda>p. p\<lparr>inNucleus := True,
                 nucleusProb := rnd (prob p / runningSum rnd (map prob (take n ps)))\<rparr>) (take n ps)
       @ drop n ps"

definition cumNucleus :: "(real \<Rightarrow> real) \<Rightarrow> nat \<Rightarrow> prediction list \<Rightarrow> nat \<Rightarrow> real" where
  "cumNucleus rnd n ps j = runningSum rnd (map nucleusProb (take (Suc j) (withNucleus rnd n ps)))"

text \<open>The value of \<open>cum\<close> in the sampling loop once member \<open>j\<close> of the nucleus is added.\<close>

definition cumAfter :: "(real \<Rightarrow> real) \<Rightarrow> prediction list \<Rightarrow> nat \<Rightarrow> real" where
  "cumAfter rnd nucleus j = runningSum rnd (map nucleusProb (take (Suc j) nucleus))"

text \<open>The value of \<open>cumProb\<close> in the nucleus loop once \<open>m\<close> candidates are visited.\<close>

definition cumProbAfter :: "(real \<Rightarrow> real) \<Rightarrow> prediction list \<Rightarrow> nat \<Rightarrow> real" where
  "cumProbAfter rnd ps m = runningSum rnd (map prob (take m ps))"

text \<open>
  An arithmetic that keeps the order: \<open>Math.exp\<close> and the rounding are monotone, zero is
  rounded to zero and \<open>Math.exp\<close> is never negative.
\<close>

definition orderPreserving :: "(real \<Rightarrow> real) \<Rightarrow> (real \<Rightarrow> real) \<Rightarrow> bool" where
  "orderPreserving fexp rnd \<longleftrightarrow> mono fexp \<and> mono rnd \<and> rnd 0 = 0 \<and> (\<forall>x. 0 \<le> fexp x)"

text \<open>
  Rounding to the nearest number with 53 significant bits, which is how IEEE 754 double
  arithmetic rounds in the normal range (ties, subnormal numbers and overflow aside).
\<close>

definition roundDouble :: "real \<Rightarrow> real" where
  "roundDouble x =
     (if x = 0 then 0
      else (let ulp = 2 powr (of_int \<lfloor>log 2 \<bar>x\<bar>\<rfloor> - 52)
            in of_int (round (x / ulp)) * ulp))"

text \<open>The camera: scale and offsets.\<close>

definition camera :: "viz \<Rightarrow> real \<times> real \<times> real" where
  "camera s = (zoom s, panX s, panY s)"

text \<open>The bounds of the scale.\<close>

definition inRange :: "real \<Rightarrow> bool" where
  "inRange z \<longleftrightarrow> 15 / 100 \<le> z \<and> z \<le> 4"

definition inBounds :: "viz \<Rightarrow> bool" where
  "inBounds s \<longleftrightarrow> inRange (zoom s)"

text \<open>
  The scene that \<open>build\<close> lays out, in closed form: the spacing of the logit rows, the
  \<open>x\<close> of column \<open>j\<close>, the columns, the bars, and the extent and scale of the auto-fit.
\<close>

definition logitGap :: "nat \<Rightarrow> nat \<Rightarrow> real" where
  "logitGap numTokens numPreds =
     max MIN_LOGIT_GAP (min ROW_GAP (((real numTokens - 1) * ROW_GAP) / max (real numPreds - 1) 1))"

definition columnX :: "nat \<Rightarrow> real" where
  "columnX j = LEFT_PADDING + real j * COLUMN_GAP"

definition builtColumns ::
  "(string \<Rightarrow> string) \<Rightarrow> (real \<Rightarrow> nat \<Rightarrow> string) \<Rightarrow> token list \<Rightarrow> nat \<Rightarrow> prediction list
     \<Rightarrow> column list" where
  "builtColumns trim fmt tokens numLayers predictions =
     [\<lparr>c_label = ''TOKENS'', c_color = ''#4ea8de'',
        c_nodes = map (tokenNode trim (columnX 0) (TOP_PADDING + 30) tokens) [0..<length tokens],
        c_type = TokenT\<rparr>,
      \<lparr>c_label = ''EMBEDDINGS'', c_color = ''#34d399'',
        c_nodes = map (embedNode trim (columnX 1) (TOP_PADDING + 30) tokens) [0..<length tokens],
        c_type = EmbeddingT\<rparr>]
     @ map (\<lambda>l. layerColumn (columnX (l + 2)) (TOP_PADDING + 30) (length tokens) l)
         [0..<numLayers]
     @ [\<lparr>c_label = ''LOGITS'', c_color = ''#f472b6'',
         c_nodes = map (logitNode fmt (columnX (numLayers + 2)) (TOP_PADDING + 30)
                          (logitGap (length tokens) (length predictions)) predictions)
                     [0..<length predictions],
         c_type = LogitT\<rparr>]"

definition builtBars :: "nat \<Rightarrow> nat \<Rightarrow> prediction list \<Rightarrow> bar list" where
  "builtBars numTokens numLayers predictions =
     map (outputBar (columnX (numLayers + 2) + (COLUMN_GAP + 10)) (TOP_PADDING + 30)
            (logitGap numTokens (length predictions)) predictions)
       [0..<length predictions]"

definition contentWidth :: "nat \<Rightarrow> real" where
  "contentWidth numLayers = columnX (numLayers + 2) + (COLUMN_GAP + 10) + 280"

definition contentHeight :: "nat \<Rightarrow> nat \<Rightarrow> real" where
  "contentHeight numTokens numPreds =
     max ((real numTokens - 1) * ROW_GAP + TOP_PADDING + 80)
         ((real numPreds - 1) * logitGap numTokens numPreds + TOP_PADDING + 80)"

definition fitZoom :: "real \<Rightarrow> real \<Rightarrow> real \<Rightarrow> real \<Rightarrow> real" where
  "fitZoom canvasW canvasH w h = max (min (min (canvasW / w) (canvasH / h)) (3 / 2)) (3 / 10)"

text \<open>
  The coordinates from which \<open>resetView\<close> takes the extent of the scene: the \<open>x\<close> and \<open>y\<close>
  of every node, and of every bar with 280 added to its \<open>x\<close>.
\<close>

definition sceneXs :: "viz \<Rightarrow> real list" where
  "sceneXs s = map n_x (concat (map c_nodes (columns s))) @ map (\<lambda>b. b_x b + 280) (outputBars s)"

definition sceneYs :: "viz \<Rightarrow> real list" where
  "sceneYs s = map n_y (concat (map c_nodes (columns s))) @ map b_y (outputBars s)"

text \<open>The Euclidean distance between the pointer and an anchor, in scene space.\<close>

definition distance :: "real \<Rightarrow> real \<Rightarrow> real \<Rightarrow> real \<Rightarrow> real" where
  "distance x y x' y' = sqrt ((x - x') * (x - x') + (y - y') * (y - y'))"

text \<open>
  What every scene of viz.js satisfies: the nodes of column \<open>j\<close> sit at \<open>columnX j\<close>, the
  rows of a column are at least \<open>MIN_LOGIT_GAP\<close> apart, the bars are to the right of the
  last column, and the first bar is the winner.
\<close>

definition laidOut :: "viz \<Rightarrow> bool" where
  "laidOut s \<longleftrightarrow>
     (\<forall>j<length (columns s). \<forall>n\<in>set (c_nodes (columns s ! j)). n_x n = columnX j)
   \<and> (\<forall>j<length (columns s).
         sorted_wrt (\<lambda>a b. n_y a + MIN_LOGIT_GAP \<le> n_y b) (c_nodes (columns s ! j)))
   \<and> (\<forall>i<length (outputBars s). columnX (length (columns s)) \<le> b_x (outputBars s ! i))
   \<and> (\<forall>i<length (outputBars s). b_isWinner (outputBars s ! i) = (i = 0))"

section \<open>Properties of computePredictions\<close>

subsection \<open>The scaling loop and the store\<close>

lemma scaleLoop_Suc:
  "scaleLoop fround la sa t (Suc n) h = scaleStep fround la sa t n (scaleLoop fround la sa t n h)"
  by (simp add: scaleLoop_def)

lemma scaleLoop_0: "scaleLoop fround la sa t 0 h = h"
  by (simp add: scaleLoop_def)

lemma scaleLoop_inv:
  assumes "la \<noteq> sa" and "sa < length h" and "k \<le> length (h ! sa)"
  shows "length (scaleLoop fround la sa t k h) = length h
       \<and> (\<forall>a. a \<noteq> sa \<longrightarrow> scaleLoop fround la sa t k h ! a = h ! a)
       \<and> scaleLoop fround la sa t k h ! sa
           = map (\<lambda>i. fround (h ! la ! i / t)) [0..<k] @ drop k (h ! sa)"
  using assms(3)
proof (induction k)
  case 0
  then show ?case by (simp add: scaleLoop_0)
next
  case (Suc k)
  let ?h = "scaleLoop fround la sa t k h"
  from Suc have len: "length ?h = length h"
    and other: "\<forall>a. a \<noteq> sa \<longrightarrow> ?h ! a = h ! a"
    and here: "?h ! sa = map (\<lambda>i. fround (h ! la ! i / t)) [0..<k] @ drop k (h ! sa)"
    by simp_all
  from Suc.prems have k: "k < length (h ! sa)" by simp
  have la: "?h ! la = h ! la" using other assms(1) by simp
  have upd: "(?h ! sa)[k := v] = map (\<lambda>i. fround (h ! la ! i / t)) [0..<k] @ v # drop (Suc k) (h ! sa)" for v
    using k by (simp add: here list_update_append Cons_nth_drop_Suc [symmetric])
  show ?case
    using assms(1,2) len other la upd
    by (simp add: scaleLoop_Suc scaleStep_def writeAt_def readAt_def)
qed

lemma heap_after_scale:
  fixes fround :: "real \<Rightarrow> real" and t :: real
  assumes "la < length h"
  defines "n \<equiv> length (h ! la)"
  defines "h2 \<equiv> scaleLoop fround la (length h) t n (h @ [replicate n 0])"
  shows "take (length h) h2 = h" and "length h2 = Suc (length h)"
    and "mkIndexed h2 la (length h) = scaledItems fround (h ! la) t"
proof -
  let ?h1 = "h @ [replicate n 0]"
  have inv: "length h2 = length ?h1
       \<and> (\<forall>a. a \<noteq> length h \<longrightarrow> h2 ! a = ?h1 ! a)
       \<and> h2 ! length h = map (\<lambda>i. fround (?h1 ! la ! i / t)) [0..<n] @ drop n (?h1 ! length h)"
    unfolding h2_def using assms(1) by (intro scaleLoop_inv) simp_all
  then show len: "length h2 = Suc (length h)" by simp
  show "take (length h) h2 = h"
  proof (rule nth_equalityI)
    show "length (take (length h) h2) = length h" using len by simp
  next
    fix i assume "i < length (take (length h) h2)"
    then have "i < length h" by simp
    then show "take (length h) h2 ! i = h ! i" using inv by (simp add: nth_append)
  qed
  have la: "h2 ! la = h ! la" using inv assms(1) by (simp add: nth_append)
  have sa: "h2 ! length h = map (\<lambda>i. fround (h ! la ! i / t)) [0..<n]"
    using inv assms(1) by (simp add: nth_append)
  show "mkIndexed h2 la (length h) = scaledItems fround (h ! la) t"
    by (simp add: mkIndexed_def scaledItems_def readAt_def la sa n_def)
qed

lemma computePredictions_unfold:
  assumes "la < length h"
  shows "snd (computePredictions fexp rnd fround decodeToken r h la temperature topK topP) =
     (case softmaxTop fexp rnd decodeToken (take topK (sortItems (scaledItems fround (h ! la) (max temperature (1 / 100))))) of
        Inl e \<Rightarrow> Inl e
      | Inr predictions \<Rightarrow> sampleNucleus rnd r topP predictions)"
  using heap_after_scale(3) [OF assms, of fround "max temperature (1 / 100)"]
  by (simp add: computePredictions_def newFloat32Array_def Let_def)

lemma computePredictions_heap:
  assumes "la < length h"
  shows "take (length h) (fst (computePredictions fexp rnd fround decodeToken r h la temperature topK topP)) = h"
  using heap_after_scale(1) [OF assms, of fround "max temperature (1 / 100)"]
  by (simp add: computePredictions_def newFloat32Array_def Let_def)

subsection \<open>The sort and the slice\<close>

lemma before_trans: "before a b \<Longrightarrow> before b c \<Longrightarrow> before a c"
  by (auto simp: before_def)

lemma set_insertItem: "set (insertItem a bs) = insert a (set bs)"
  by (induction bs) auto

lemma length_insertItem: "length (insertItem a bs) = Suc (length bs)"
  by (induction bs) auto

lemma sorted_insertItem:
  "sorted_wrt before bs \<Longrightarrow> \<forall>b\<in>set bs. idx a < idx b \<Longrightarrow> sorted_wrt before (insertItem a bs)"
proof (induction bs)
  case Nil
  then show ?case by simp
next
  case (Cons b bs)
  show ?case
  proof (cases "cmp a b \<le> 0")
    case True
    then have ab: "before a b" using Cons.prems(2) by (auto simp: cmp_def before_def)
    have "\<forall>c\<in>set bs. before a c"
      using ab Cons.prems(1) before_trans by auto
    with ab True Cons.prems(1) show ?thesis by simp
  next
    case False
    then have ba: "before b a" by (auto simp: cmp_def before_def)
    from Cons have "sorted_wrt before (insertItem a bs)" by simp
    with False ba Cons.prems(1) show ?thesis by (auto simp: set_insertItem)
  qed
qed

lemma sortItems_Cons: "sortItems (x # xs) = insertItem x (sortItems xs)"
  by (simp add: sortItems_def)

lemma set_sortItems: "set (sortItems xs) = set xs"
  by (induction xs) (simp_all add: sortItems_def set_insertItem)

lemma length_sortItems: "length (sortItems xs) = length xs"
  by (induction xs) (simp_all add: sortItems_def length_insertItem)

lemma sorted_sortItems:
  "sorted_wrt (\<lambda>a b. idx a < idx b) xs \<Longrightarrow> sorted_wrt before (sortItems xs)"
proof (induction xs)
  case Nil
  then show ?case by (simp add: sortItems_def)
next
  case (Cons x xs)
  then have "sorted_wrt before (sortItems xs)" and "\<forall>b\<in>set (sortItems xs). idx x < idx b"
    by (simp_all add: set_sortItems)
  then show ?case by (simp add: sortItems_Cons sorted_insertItem)
qed

lemma topItems_facts:
  fixes fround :: "real \<Rightarrow> real" and scores :: "real list" and temperature :: real and topK :: nat
  defines "sc \<equiv> scaledScore fround scores temperature"
  defines "tops \<equiv> take topK (sortItems (scaledItems fround scores (max temperature (1 / 100))))"
  shows "length tops = min topK (length scores)"
    and "\<forall>a\<in>set tops. idx a < length scores \<and> rawLogit a = scores ! idx a"
    and "sorted_wrt (\<lambda>a b. ranksBefore sc (idx a) (idx b)) tops"
    and "sorted_wrt (\<lambda>a b. val b \<le> val a) tops"
    and "\<forall>j<length scores. j \<notin> idx ` set tops \<longrightarrow>
           (\<forall>a\<in>set tops. ranksBefore sc (idx a) j)"
proof -
  let ?t = "max temperature (1 / 100)"
  let ?items = "scaledItems fround scores ?t"
  let ?S = "sortItems ?items"
  let ?top = tops
  have tops: "?top = take topK ?S" by (simp add: tops_def)
  have item: "val a = sc (idx a) \<and> rawLogit a = scores ! idx a \<and> idx a < length scores
      \<and> a = ?items ! idx a"
    if "a \<in> set ?items" for a
    using that by (auto simp: scaledItems_def sc_def scaledScore_def)
  have "sorted_wrt (\<lambda>a b. idx a < idx b) ?items"
    by (simp add: scaledItems_def sorted_wrt_map)
  then have sorted: "sorted_wrt before ?S" by (rule sorted_sortItems)
  have setS: "set ?S = set ?items" by (rule set_sortItems)
  have sub: "set ?top \<subseteq> set ?items" unfolding tops using setS by (auto dest: in_set_takeD)
  show "length ?top = min topK (length scores)"
    by (simp add: tops length_sortItems scaledItems_def min.commute)
  show "\<forall>a\<in>set ?top. idx a < length scores \<and> rawLogit a = scores ! idx a"
    using sub item by blast
  have st: "sorted_wrt before ?top" unfolding tops using sorted by (rule sorted_wrt_take)
  have conv: "ranksBefore sc (idx a) (idx b)"
    if "a \<in> set ?items" "b \<in> set ?items" "before a b" for a b
    using that item [of a] item [of b] by (auto simp: before_def ranksBefore_def)
  show "sorted_wrt (\<lambda>a b. ranksBefore sc (idx a) (idx b)) ?top"
    using st sub by (elim sorted_wrt_mono_rel [rotated]) (auto intro: conv)
  show "sorted_wrt (\<lambda>a b. val b \<le> val a) ?top"
    using st by (elim sorted_wrt_mono_rel [rotated]) (auto simp: before_def)
  show "\<forall>j<length scores. j \<notin> idx ` set ?top \<longrightarrow>
           (\<forall>a\<in>set ?top. ranksBefore sc (idx a) j)"
  proof (intro allI impI ballI)
    fix j a assume j: "j < length scores" "j \<notin> idx ` set ?top" and a: "a \<in> set ?top"
    let ?b = "?items ! j"
    have bj: "idx ?b = j" using j(1) by (simp add: scaledItems_def)
    have "?b \<in> set ?items" using j(1) by (simp add: scaledItems_def)
    then have bS: "?b \<in> set ?S" using setS by simp
    have "?b \<notin> set ?top" using j(2) bj by force
    moreover have "set ?S = set ?top \<union> set (drop topK ?S)"
      unfolding tops by (metis append_take_drop_id set_append)
    ultimately have bd: "?b \<in> set (drop topK ?S)" using bS by blast
    have "sorted_wrt before (take topK ?S @ drop topK ?S)" using sorted by simp
    then have "before a ?b" using a bd unfolding tops sorted_wrt_append by blast
    then show "ranksBefore sc (idx a) j"
      using conv [of a ?b] a sub \<open>?b \<in> set ?items\<close> bj by auto
  qed
qed

subsection \<open>Softmax\<close>

lemma foldl_plus_sum_list:
  fixes a :: real
  shows "foldl (\<lambda>s x. s + x) a xs = a + sum_list xs"
  by (induction xs arbitrary: a) simp_all

lemma runningSum_exact: "runningSum (\<lambda>x. x) xs = sum_list xs"
  by (simp add: runningSum_def foldl_plus_sum_list)

lemma map_nth_upt_take: "n \<le> length xs \<Longrightarrow> map (\<lambda>i. f (xs ! i)) [0..<n] = map f (take n xs)"
  by (rule nth_equalityI) simp_all

lemma softmaxTop_Cons:
  "softmaxTop fexp rnd d (a # as) =
     Inr (map (\<lambda>it. \<lparr>word = d (idx it),
                     prob = rnd (fexp (rnd (val it - val a))
                              / runningSum rnd (map (\<lambda>it. fexp (rnd (val it - val a))) (a # as))),
                     logit = rawLogit it, tokenId = idx it, inNucleus = False,
                     isSampled = False, nucleusProb = 0\<rparr>) (a # as))"
  by (simp add: softmaxTop_def Let_def runningSum_def foldl_map toPrediction_def withExp_def
      comp_def)

lemma sum_list_exp_pos:
  fixes g :: "'a \<Rightarrow> real"
  shows "xs \<noteq> [] \<Longrightarrow> 0 < sum_list (map (\<lambda>x. exp (g x)) xs)"
proof (induction xs)
  case Nil
  then show ?case by simp
next
  case (Cons x xs)
  have "0 \<le> sum_list (map (\<lambda>x. exp (g x)) xs)" by (rule sum_list_nonneg) auto
  moreover have "0 < exp (g x)" by simp
  ultimately show ?case by (simp add: add_pos_nonneg)
qed

lemma foldl_rnd_nonneg:
  fixes rnd :: "real \<Rightarrow> real"
  assumes "mono rnd" and "rnd 0 = 0"
  shows "0 \<le> c \<Longrightarrow> \<forall>x\<in>set xs. 0 \<le> x \<Longrightarrow> 0 \<le> foldl (\<lambda>s x. rnd (s + x)) c xs"
proof (induction xs arbitrary: c)
  case Nil
  then show ?case by simp
next
  case (Cons x xs)
  then have "0 \<le> c + x" by simp
  then have "rnd 0 \<le> rnd (c + x)" by (rule monoD [OF assms(1)])
  then have "0 \<le> rnd (c + x)" using assms(2) by simp
  with Cons show ?case by simp
qed

lemma softmaxTop_spec:
  assumes "topItems \<noteq> []"
  shows "\<exists>ps. softmaxTop fexp rnd d topItems = Inr ps \<and> length ps = length topItems
     \<and> map tokenId ps = map idx topItems
     \<and> map logit ps = map rawLogit topItems
     \<and> map word ps = map (\<lambda>it. d (idx it)) topItems
     \<and> (\<forall>p\<in>set ps. \<not> inNucleus p \<and> \<not> isSampled p)"
proof -
  from assms obtain a as where t: "topItems = a # as" by (cases topItems) auto
  show ?thesis unfolding t softmaxTop_Cons by (simp add: comp_def)
qed

text \<open>In an arithmetic that keeps the order, the probabilities descend with the scores.\<close>

lemma softmaxTop_sorted:
  assumes op: "orderPreserving fexp rnd"
    and srt: "sorted_wrt (\<lambda>a b. val b \<le> val a) topItems"
    and eq: "softmaxTop fexp rnd d topItems = Inr ps"
  shows "sorted_wrt (\<lambda>p q. prob q \<le> prob p) ps"
proof -
  from eq obtain a as where t: "topItems = a # as"
    by (cases topItems) (auto simp: softmaxTop_def)
  from op have mf: "mono fexp" and mr: "mono rnd" and r0: "rnd 0 = 0" and f0: "\<forall>x. 0 \<le> fexp x"
    by (simp_all add: orderPreserving_def)
  define S where "S = runningSum rnd (map (\<lambda>it. fexp (rnd (val it - val a))) topItems)"
  have S: "0 \<le> S"
    unfolding S_def runningSum_def using mr r0 f0 by (intro foldl_rnd_nonneg) auto
  define mk where "mk = (\<lambda>it::item. \<lparr>word = d (idx it), prob = rnd (fexp (rnd (val it - val a)) / S),
     logit = rawLogit it, tokenId = idx it, inNucleus = False, isSampled = False, nucleusProb = 0\<rparr>)"
  have "softmaxTop fexp rnd d topItems = Inr (map mk topItems)"
    unfolding t softmaxTop_Cons mk_def S_def t ..
  with eq have ps: "ps = map mk topItems" by simp
  have le: "prob (mk y) \<le> prob (mk x)" if "val y \<le> val x" for x y
  proof -
    from that have "val y - val a \<le> val x - val a" by simp
    then have "rnd (val y - val a) \<le> rnd (val x - val a)" by (rule monoD [OF mr])
    then have "fexp (rnd (val y - val a)) \<le> fexp (rnd (val x - val a))" by (rule monoD [OF mf])
    then have "fexp (rnd (val y - val a)) / S \<le> fexp (rnd (val x - val a)) / S"
      using S by (rule divide_right_mono)
    then have "rnd (fexp (rnd (val y - val a)) / S) \<le> rnd (fexp (rnd (val x - val a)) / S)"
      by (rule monoD [OF mr])
    then show ?thesis by (simp add: mk_def)
  qed
  show ?thesis
    unfolding ps using srt le
    by (simp add: sorted_wrt_map) (erule sorted_wrt_mono_rel [rotated], simp)
qed

text \<open>In exact arithmetic the probabilities are positive and sum to 1.\<close>

lemma softmaxTop_exact:
  assumes eq: "softmaxTop exp (\<lambda>x. x) d topItems = Inr ps"
  shows "(\<forall>p\<in>set ps. 0 < prob p) \<and> sum_list (map prob ps) = 1"
proof -
  from eq obtain a as where t: "topItems = a # as"
    by (cases topItems) (auto simp: softmaxTop_def)
  then have ne: "topItems \<noteq> []" by simp
  define S where "S = sum_list (map (\<lambda>it. exp (val it - val a)) topItems)"
  have S: "0 < S" unfolding S_def using ne by (rule sum_list_exp_pos)
  define mk where "mk = (\<lambda>it::item. \<lparr>word = d (idx it), prob = exp (val it - val a) / S,
     logit = rawLogit it, tokenId = idx it, inNucleus = False, isSampled = False, nucleusProb = 0\<rparr>)"
  have "softmaxTop exp (\<lambda>x. x) d topItems = Inr (map mk topItems)"
    unfolding t softmaxTop_Cons runningSum_exact mk_def S_def t ..
  with eq have ps: "ps = map mk topItems" by simp
  have sum: "sum_list (map prob (map mk topItems)) = 1"
  proof -
    have "sum_list (map prob (map mk topItems)) = sum_list (map (\<lambda>it. exp (val it - val a) / S) topItems)"
      by (simp add: mk_def comp_def)
    also have "\<dots> = sum_list (map (\<lambda>it. exp (val it - val a)) topItems) / S"
      by (induction topItems) (simp_all add: add_divide_distrib)
    also have "\<dots> = 1" using S by (simp add: S_def)
    finally show ?thesis .
  qed
  have "\<forall>p\<in>set (map mk topItems). 0 < prob p" using S by (simp add: mk_def)
  with sum show ?thesis unfolding ps by blast
qed

subsection \<open>Nucleus, renormalization and sampling\<close>

lemma markNucleus_prefix:
  "ps \<noteq> [] \<Longrightarrow>
     \<exists>n. 0 < n \<and> n \<le> length ps
       \<and> markNucleus rnd c tp ps = map (\<lambda>p. p\<lparr>inNucleus := True\<rparr>) (take n ps) @ drop n ps
       \<and> (n < length ps \<longrightarrow> tp \<le> foldl (\<lambda>s x. rnd (s + x)) c (map prob (take n ps)))
       \<and> (\<forall>m. 0 < m \<and> m < n \<longrightarrow> foldl (\<lambda>s x. rnd (s + x)) c (map prob (take m ps)) < tp)"
proof (induction ps arbitrary: c)
  case Nil
  then show ?case by simp
next
  case (Cons p ps)
  let ?F = "foldl (\<lambda>s x. rnd (s + x))"
  show ?case
  proof (cases "tp \<le> rnd (c + prob p)")
    case True
    then show ?thesis by (intro exI [of _ 1]) simp
  next
    case False
    note nocross = this
    show ?thesis
    proof (cases ps)
      case Nil
      with False show ?thesis by (intro exI [of _ 1]) simp
    next
      case (Cons q qs)
      then have "ps \<noteq> []" by simp
      from Cons.IH [OF this, of "rnd (c + prob p)"] obtain n where n: "0 < n" "n \<le> length ps"
        "markNucleus rnd (rnd (c + prob p)) tp ps = map (\<lambda>p. p\<lparr>inNucleus := True\<rparr>) (take n ps) @ drop n ps"
        "n < length ps \<longrightarrow> tp \<le> ?F (rnd (c + prob p)) (map prob (take n ps))"
        "\<forall>m. 0 < m \<and> m < n \<longrightarrow> ?F (rnd (c + prob p)) (map prob (take m ps)) < tp"
        by blast
      have "\<forall>m. 0 < m \<and> m < Suc n \<longrightarrow> ?F c (map prob (take m (p # ps))) < tp"
      proof (intro allI impI)
        fix m assume m: "0 < m \<and> m < Suc n"
        then obtain m' where m': "m = Suc m'" by (cases m) auto
        show "?F c (map prob (take m (p # ps))) < tp"
        proof (cases m')
          case 0
          with m' nocross show ?thesis by simp
        next
          case (Suc k)
          with m m' n(5) have "?F (rnd (c + prob p)) (map prob (take m' ps)) < tp" by simp
          with m' show ?thesis by simp
        qed
      qed
      with n nocross show ?thesis
        by (intro exI [of _ "Suc n"]) simp
    qed
  qed
qed

lemma fold_update_upt:
  "n \<le> length ps \<Longrightarrow>
     fold (\<lambda>i qs. qs[i := g (qs ! i)]) [0..<n] ps = map g (take n ps) @ drop n ps"
proof (induction n)
  case 0
  then show ?case by simp
next
  case (Suc n)
  then have n: "n < length ps" by simp
  let ?xs = "map g (take n ps) @ drop n ps"
  have nth: "?xs ! n = ps ! n" using n by (simp add: nth_append)
  have "?xs[n := g (ps ! n)] = map g (take n ps) @ (drop n ps)[0 := g (ps ! n)]"
    using n by (simp add: list_update_append)
  also have "\<dots> = map g (take n ps) @ g (ps ! n) # drop (Suc n) ps"
    using n by (simp add: Cons_nth_drop_Suc [symmetric])
  also have "\<dots> = map g (take (Suc n) ps) @ drop (Suc n) ps"
    using n by (simp add: take_Suc_conv_app_nth)
  finally show ?case using Suc n by (simp add: nth)
qed

lemma sampleLoop_cases:
  "(sampleLoop rnd r c js ps = ps
      \<and> (\<forall>j<length js.
            foldl (\<lambda>s x. rnd (s + x)) c (map (\<lambda>i. nucleusProb (ps ! i)) (take (Suc j) js)) < r))
   \<or> (\<exists>k<length js.
        r \<le> foldl (\<lambda>s x. rnd (s + x)) c (map (\<lambda>i. nucleusProb (ps ! i)) (take (Suc k) js))
      \<and> (\<forall>j<k. foldl (\<lambda>s x. rnd (s + x)) c (map (\<lambda>i. nucleusProb (ps ! i)) (take (Suc j) js)) < r)
      \<and> sampleLoop rnd r c js ps = ps[js ! k := (ps ! (js ! k))\<lparr>isSampled := True\<rparr>])"
proof (induction js arbitrary: c)
  case Nil
  then show ?case by simp
next
  case (Cons i js)
  let ?f = "\<lambda>i. nucleusProb (ps ! i)"
  let ?F = "foldl (\<lambda>s x. rnd (s + x))"
  let ?c = "rnd (c + ?f i)"
  show ?case
  proof (cases "r \<le> ?c")
    case True
    then have "\<exists>k<length (i # js).
        r \<le> ?F c (map ?f (take (Suc k) (i # js)))
      \<and> (\<forall>j<k. ?F c (map ?f (take (Suc j) (i # js))) < r)
      \<and> sampleLoop rnd r c (i # js) ps = ps[(i # js) ! k := (ps ! ((i # js) ! k))\<lparr>isSampled := True\<rparr>]"
      by (intro exI [of _ 0]) simp
    then show ?thesis by blast
  next
    case False
    then have step: "sampleLoop rnd r c (i # js) ps = sampleLoop rnd r ?c js ps" by simp
    from Cons.IH [of ?c] show ?thesis
    proof
      assume a: "sampleLoop rnd r ?c js ps = ps
        \<and> (\<forall>j<length js. ?F ?c (map ?f (take (Suc j) js)) < r)"
      have "\<forall>j<length (i # js). ?F c (map ?f (take (Suc j) (i # js))) < r"
      proof (intro allI impI)
        fix j assume "j < length (i # js)"
        then show "?F c (map ?f (take (Suc j) (i # js))) < r"
          using a False by (cases j) simp_all
      qed
      with a step show ?thesis by simp
    next
      assume "\<exists>k<length js.
          r \<le> ?F ?c (map ?f (take (Suc k) js))
        \<and> (\<forall>j<k. ?F ?c (map ?f (take (Suc j) js)) < r)
        \<and> sampleLoop rnd r ?c js ps = ps[js ! k := (ps ! (js ! k))\<lparr>isSampled := True\<rparr>]"
      then obtain k where k: "k < length js"
        "r \<le> ?F ?c (map ?f (take (Suc k) js))"
        "\<forall>j<k. ?F ?c (map ?f (take (Suc j) js)) < r"
        "sampleLoop rnd r ?c js ps = ps[js ! k := (ps ! (js ! k))\<lparr>isSampled := True\<rparr>]"
        by blast
      have "\<forall>j<Suc k. ?F c (map ?f (take (Suc j) (i # js))) < r"
      proof (intro allI impI)
        fix j assume "j < Suc k"
        then show "?F c (map ?f (take (Suc j) (i # js))) < r"
          using k(3) False by (cases j) simp_all
      qed
      with k step have "Suc k < length (i # js)
        \<and> r \<le> ?F c (map ?f (take (Suc (Suc k)) (i # js)))
        \<and> (\<forall>j<Suc k. ?F c (map ?f (take (Suc j) (i # js))) < r)
        \<and> sampleLoop rnd r c (i # js) ps = ps[(i # js) ! Suc k := (ps ! ((i # js) ! Suc k))\<lparr>isSampled := True\<rparr>]"
        by simp
      then show ?thesis by blast
    qed
  qed
qed

lemma nucleusRefs_prefix:
  assumes "n \<le> length ps" and "\<forall>p\<in>set ps. \<not> inNucleus p"
  shows "nucleusRefs (map (\<lambda>p. p\<lparr>inNucleus := True\<rparr>) (take n ps) @ drop n ps) = [0..<n]"
proof -
  let ?xs = "map (\<lambda>p. p\<lparr>inNucleus := True\<rparr>) (take n ps) @ drop n ps"
  have len: "length ?xs = length ps" using assms(1) by simp
  have split: "[0..<length ps] = [0..<n] @ [n..<length ps]"
    using assms(1) by (metis le_add_diff_inverse upt_add_eq_append zero_le)
  have a: "filter (\<lambda>i. inNucleus (?xs ! i)) [0..<n] = [0..<n]"
    using assms(1) by (intro filter_True) (simp add: nth_append)
  have b: "filter (\<lambda>i. inNucleus (?xs ! i)) [n..<length ps] = []"
    using assms by (intro filter_False) (auto simp: nth_append)
  show ?thesis
    unfolding nucleusRefs_def len split filter_append a b by simp
qed

lemma renormalize_prefix:
  assumes "n \<le> length ps"
  shows "renormalize rnd [0..<n] (map (\<lambda>p. p\<lparr>inNucleus := True\<rparr>) (take n ps) @ drop n ps)
       = withNucleus rnd n ps"
proof -
  let ?xs = "map (\<lambda>p. p\<lparr>inNucleus := True\<rparr>) (take n ps) @ drop n ps"
  let ?S = "runningSum rnd (map prob (take n ps))"
  have len: "n \<le> length ?xs" using assms by simp
  have tk: "take n ?xs = map (\<lambda>p. p\<lparr>inNucleus := True\<rparr>) (take n ps)" using assms by simp
  have dr: "drop n ?xs = drop n ps" using assms by simp
  have "foldl (\<lambda>s i. rnd (s + prob (?xs ! i))) 0 [0..<n]
      = foldl (\<lambda>s x. rnd (s + x)) 0 (map (\<lambda>i. prob (?xs ! i)) [0..<n])"
    by (simp add: foldl_map)
  also have "map (\<lambda>i. prob (?xs ! i)) [0..<n] = map prob (take n ?xs)"
    using len by (rule map_nth_upt_take)
  also have "map prob (take n ?xs) = map prob (take n ps)"
    unfolding tk by (simp add: comp_def)
  finally have s: "foldl (\<lambda>s i. rnd (s + prob (?xs ! i))) 0 [0..<n] = ?S"
    by (simp add: runningSum_def)
  have "renormalize rnd [0..<n] ?xs
      = map (\<lambda>q. q\<lparr>nucleusProb := rnd (prob q / ?S)\<rparr>) (take n ?xs) @ drop n ?xs"
    unfolding renormalize_def Let_def s
    by (rule fold_update_upt [OF len, where g = "\<lambda>q. q\<lparr>nucleusProb := rnd (prob q / ?S)\<rparr>"])
  then show ?thesis
    unfolding tk dr withNucleus_def by (simp add: comp_def)
qed

lemma sum_take_upt:
  "j < n \<Longrightarrow> n \<le> length xs \<Longrightarrow>
     foldl (\<lambda>s x. rnd (s + x)) 0 (map (\<lambda>i. f (xs ! i)) (take (Suc j) [0..<n]))
       = runningSum rnd (map f (take (Suc j) xs))"
proof -
  assume a: "j < n" "n \<le> length xs"
  then have "take (Suc j) [0..<n] = [0..<Suc j]" by (simp add: take_upt)
  moreover have "map (\<lambda>i. f (xs ! i)) [0..<Suc j] = map f (take (Suc j) xs)"
    using a by (intro map_nth_upt_take) simp
  ultimately show ?thesis by (simp add: runningSum_def)
qed

lemma sampleNucleus_spec:
  assumes "ps \<noteq> []" and clean: "\<forall>p\<in>set ps. \<not> inNucleus p \<and> \<not> isSampled p"
  shows "\<exists>n k. 0 < n \<and> n \<le> length ps \<and> k < n
     \<and> sampleNucleus rnd r tp ps
         = Inr ((withNucleus rnd n ps)[k := (withNucleus rnd n ps ! k)\<lparr>isSampled := True\<rparr>])
     \<and> (n < length ps \<longrightarrow> tp \<le> runningSum rnd (map prob (take n ps)))
     \<and> (\<forall>m. 0 < m \<and> m < n \<longrightarrow> runningSum rnd (map prob (take m ps)) < tp)
     \<and> (if \<exists>j<n. r \<le> cumNucleus rnd n ps j
         then r \<le> cumNucleus rnd n ps k \<and> (\<forall>j<k. cumNucleus rnd n ps j < r)
         else k = 0)"
proof -
  let ?F = "foldl (\<lambda>s x. rnd (s + x))"
  from markNucleus_prefix [OF assms(1), of rnd 0 tp, folded runningSum_def]
  obtain n where n: "0 < n" "n \<le> length ps"
    "markNucleus rnd 0 tp ps = map (\<lambda>p. p\<lparr>inNucleus := True\<rparr>) (take n ps) @ drop n ps"
    "n < length ps \<longrightarrow> tp \<le> runningSum rnd (map prob (take n ps))"
    "\<forall>m. 0 < m \<and> m < n \<longrightarrow> runningSum rnd (map prob (take m ps)) < tp"
    by auto
  let ?w = "withNucleus rnd n ps"
  have lenw: "length ?w = length ps" using n(2) by (simp add: withNucleus_def)
  have refs: "nucleusRefs (markNucleus rnd 0 tp ps) = [0..<n]"
    unfolding n(3) using n(2) clean by (intro nucleusRefs_prefix) auto
  have eq: "sampleNucleus rnd r tp ps = fallback [0..<n] (sampleLoop rnd r 0 [0..<n] ?w)"
    unfolding sampleNucleus_def Let_def refs unfolding n(3) renormalize_prefix [OF n(2)] ..
  have unsampled: "\<not> isSampled (?w ! i)" if "i < length ps" for i
    using that clean n(2) by (auto simp: withNucleus_def nth_append)
  have cum: "?F 0 (map (\<lambda>i. nucleusProb (?w ! i)) (take (Suc j) [0..<n])) = cumNucleus rnd n ps j"
    if "j < n" for j
    unfolding cumNucleus_def using that n(2) lenw by (intro sum_take_upt) simp_all
  from sampleLoop_cases [of rnd r 0 "[0..<n]" ?w]
  have "\<exists>k<n. sampleNucleus rnd r tp ps = Inr (?w[k := (?w ! k)\<lparr>isSampled := True\<rparr>])
      \<and> (if \<exists>j<n. r \<le> cumNucleus rnd n ps j
          then r \<le> cumNucleus rnd n ps k \<and> (\<forall>j<k. cumNucleus rnd n ps j < r)
          else k = 0)"
  proof
    assume a: "sampleLoop rnd r 0 [0..<n] ?w = ?w
      \<and> (\<forall>j<length [0..<n]. ?F 0 (map (\<lambda>i. nucleusProb (?w ! i)) (take (Suc j) [0..<n])) < r)"
    then have none: "\<forall>j<n. cumNucleus rnd n ps j < r" using cum by simp
    have "\<not> list_ex (\<lambda>i. isSampled (?w ! i)) [0..<n]"
      using unsampled n(2) by (auto simp: list_ex_iff)
    moreover have "[0..<n] = 0 # [1..<n]" using n(1) by (simp add: upt_conv_Cons)
    ultimately have "fallback [0..<n] ?w = Inr (?w[0 := (?w ! 0)\<lparr>isSampled := True\<rparr>])"
      by (simp add: fallback_def)
    with a eq have res: "sampleNucleus rnd r tp ps = Inr (?w[0 := (?w ! 0)\<lparr>isSampled := True\<rparr>])"
      by simp
    have nex: "\<not> (\<exists>j<n. r \<le> cumNucleus rnd n ps j)" using none by (metis not_le)
    show ?thesis
      by (rule exI [of _ 0]) (simp only: res nex n(1) if_False simp_thms)
  next
    assume "\<exists>k<length [0..<n].
        r \<le> ?F 0 (map (\<lambda>i. nucleusProb (?w ! i)) (take (Suc k) [0..<n]))
      \<and> (\<forall>j<k. ?F 0 (map (\<lambda>i. nucleusProb (?w ! i)) (take (Suc j) [0..<n])) < r)
      \<and> sampleLoop rnd r 0 [0..<n] ?w = ?w[[0..<n] ! k := (?w ! ([0..<n] ! k))\<lparr>isSampled := True\<rparr>]"
    then obtain k where k: "k < n"
      "r \<le> ?F 0 (map (\<lambda>i. nucleusProb (?w ! i)) (take (Suc k) [0..<n]))"
      "\<forall>j<k. ?F 0 (map (\<lambda>i. nucleusProb (?w ! i)) (take (Suc j) [0..<n])) < r"
      "sampleLoop rnd r 0 [0..<n] ?w = ?w[k := (?w ! k)\<lparr>isSampled := True\<rparr>]"
      by auto
    have c1: "r \<le> cumNucleus rnd n ps k" using k(1,2) cum by simp
    have c2: "\<forall>j<k. cumNucleus rnd n ps j < r" using k(1,3) cum by simp
    have "isSampled (?w[k := (?w ! k)\<lparr>isSampled := True\<rparr>] ! k)"
      using k(1) n(2) lenw by simp
    then have "list_ex (\<lambda>i. isSampled (?w[k := (?w ! k)\<lparr>isSampled := True\<rparr>] ! i)) [0..<n]"
      using k(1) by (auto simp: list_ex_iff)
    then have "fallback [0..<n] (?w[k := (?w ! k)\<lparr>isSampled := True\<rparr>]) = Inr (?w[k := (?w ! k)\<lparr>isSampled := True\<rparr>])"
      by (simp add: fallback_def)
    with eq k(4) have res: "sampleNucleus rnd r tp ps = Inr (?w[k := (?w ! k)\<lparr>isSampled := True\<rparr>])"
      by simp
    have ex: "\<exists>j<n. r \<le> cumNucleus rnd n ps j" using k(1) c1 by blast
    have "k < n \<and> sampleNucleus rnd r tp ps = Inr (?w[k := (?w ! k)\<lparr>isSampled := True\<rparr>])
      \<and> (if \<exists>j<n. r \<le> cumNucleus rnd n ps j
          then r \<le> cumNucleus rnd n ps k \<and> (\<forall>j<k. cumNucleus rnd n ps j < r)
          else k = 0)"
      using res ex k(1) c1 c2 by simp
    then show ?thesis by (rule exI [of _ k])
  qed
  with n show ?thesis by blast
qed

lemma filter_update_one:
  assumes "\<forall>x\<in>set xs. \<not> P x" and "k < length xs" and "P y"
  shows "length (filter P (xs[k := y])) = 1"
proof -
  have "xs[k := y] = take k xs @ y # drop (Suc k) xs"
    using assms(2) by (rule upd_conv_take_nth_drop)
  moreover have "filter P (take k xs) = []"
    using assms(1) by (intro filter_False) (auto dest: in_set_takeD)
  moreover have "filter P (drop (Suc k) xs) = []"
    using assms(1) by (intro filter_False) (auto dest: in_set_dropD)
  ultimately show ?thesis using assms(3) by simp
qed

lemma final_fields:
  fixes rnd :: "real \<Rightarrow> real"
  assumes n: "n \<le> length ps" and k: "k < n"
    and clean: "\<forall>p\<in>set ps. \<not> inNucleus p \<and> \<not> isSampled p"
  defines "qs \<equiv> (withNucleus rnd n ps)[k := (withNucleus rnd n ps ! k)\<lparr>isSampled := True\<rparr>]"
  shows "length qs = length ps"
    and "map tokenId qs = map tokenId ps"
    and "map prob qs = map prob ps"
    and "map logit qs = map logit ps"
    and "map word qs = map word ps"
    and "map nucleusProb qs = map nucleusProb (withNucleus rnd n ps)"
    and "\<forall>i<length ps. inNucleus (qs ! i) \<longleftrightarrow> i < n"
    and "\<forall>i<length ps. isSampled (qs ! i) \<longleftrightarrow> i = k"
    and "length (filter isSampled qs) = 1"
    and "filter inNucleus qs = take n qs"
proof -
  let ?w = "withNucleus rnd n ps"
  have lenw: "length ?w = length ps" using n by (simp add: withNucleus_def)
  show len: "length qs = length ps" by (simp add: qs_def lenw)
  have nth: "qs ! i = (if i = k then (?w ! k)\<lparr>isSampled := True\<rparr> else ?w ! i)"
    if "i < length ps" for i
    using that lenw by (simp add: qs_def nth_list_update)
  have wnth: "?w ! i = (if i < n then (ps ! i)\<lparr>inNucleus := True,
       nucleusProb := rnd (prob (ps ! i) / runningSum rnd (map prob (take n ps)))\<rparr> else ps ! i)"
    if "i < length ps" for i
    using that n by (simp add: withNucleus_def nth_append)
  have kl: "k < length ps" using k n by simp
  show "map tokenId qs = map tokenId ps"
    by (rule nth_equalityI) (simp_all add: len nth wnth kl)
  show "map prob qs = map prob ps"
    by (rule nth_equalityI) (simp_all add: len nth wnth kl)
  show "map logit qs = map logit ps"
    by (rule nth_equalityI) (simp_all add: len nth wnth kl)
  show "map word qs = map word ps"
    by (rule nth_equalityI) (simp_all add: len nth wnth kl)
  show "map nucleusProb qs = map nucleusProb ?w"
    by (rule nth_equalityI) (simp_all add: len lenw nth kl)
  have c: "\<not> inNucleus (ps ! i) \<and> \<not> isSampled (ps ! i)" if "i < length ps" for i
    using clean that by simp
  show inN: "\<forall>i<length ps. inNucleus (qs ! i) \<longleftrightarrow> i < n"
    using c k by (simp add: nth wnth kl)
  show "\<forall>i<length ps. isSampled (qs ! i) \<longleftrightarrow> i = k"
    using c by (simp add: nth wnth kl)
  have "\<not> isSampled (?w ! i)" if "i < length ps" for i
    using c [OF that] that by (simp add: wnth)
  then have "\<forall>x\<in>set ?w. \<not> isSampled x"
    using lenw by (auto simp: in_set_conv_nth)
  then show "length (filter isSampled qs) = 1"
    unfolding qs_def using kl lenw by (intro filter_update_one) simp_all
  have "qs = take n qs @ drop n qs" by simp
  moreover have "filter inNucleus (take n qs) = take n qs"
    using inN n len by (intro filter_True) (auto simp: in_set_conv_nth)
  moreover have "filter inNucleus (drop n qs) = []"
    using inN n len by (intro filter_False) (auto simp: in_set_conv_nth)
  ultimately show "filter inNucleus qs = take n qs"
    by (metis append_Nil2 filter_append)
qed

lemma cumAfter_take:
  fixes rnd :: "real \<Rightarrow> real"
  assumes "n \<le> length ps" "k < n" "j < n"
  defines "qs \<equiv> (withNucleus rnd n ps)[k := (withNucleus rnd n ps ! k)\<lparr>isSampled := True\<rparr>]"
  shows "cumAfter rnd (take n qs) j = cumNucleus rnd n ps j"
proof -
  have lenw: "length (withNucleus rnd n ps) = length ps" using assms(1) by (simp add: withNucleus_def)
  have "map nucleusProb qs = map nucleusProb (withNucleus rnd n ps)"
    unfolding qs_def
    using assms(1,2) by (intro nth_equalityI) (auto simp: lenw nth_list_update)
  then have "map nucleusProb (take (Suc j) qs) = map nucleusProb (take (Suc j) (withNucleus rnd n ps))"
    by (simp add: take_map [symmetric])
  moreover have "take (Suc j) (take n qs) = take (Suc j) qs" using assms(3) by (simp add: min_def)
  ultimately show ?thesis by (simp add: cumAfter_def cumNucleus_def)
qed

subsection \<open>The result of a call\<close>

lemma computePredictions_result:
  fixes fround :: "real \<Rightarrow> real" and temperature :: real
  assumes la: "la < length h" and ne: "h ! la \<noteq> []" and k: "0 < topK"
  defines "tops \<equiv> take topK (sortItems (scaledItems fround (h ! la) (max temperature (1 / 100))))"
  shows "\<exists>ps0 n k. softmaxTop fexp rnd d tops = Inr ps0
     \<and> sorted_wrt (\<lambda>a b. val b \<le> val a) tops
     \<and> length ps0 = length tops
     \<and> map tokenId ps0 = map idx tops \<and> map logit ps0 = map rawLogit tops
     \<and> map word ps0 = map (\<lambda>it. d (idx it)) tops
     \<and> (\<forall>p\<in>set ps0. \<not> inNucleus p \<and> \<not> isSampled p)
     \<and> 0 < n \<and> n \<le> length ps0 \<and> k < n
     \<and> snd (computePredictions fexp rnd fround d r h la temperature topK topP)
         = Inr ((withNucleus rnd n ps0)[k := (withNucleus rnd n ps0 ! k)\<lparr>isSampled := True\<rparr>])
     \<and> (n < length ps0 \<longrightarrow> topP \<le> runningSum rnd (map prob (take n ps0)))
     \<and> (\<forall>m. 0 < m \<and> m < n \<longrightarrow> runningSum rnd (map prob (take m ps0)) < topP)
     \<and> (if \<exists>j<n. r \<le> cumNucleus rnd n ps0 j
         then r \<le> cumNucleus rnd n ps0 k \<and> (\<forall>j<k. cumNucleus rnd n ps0 j < r)
         else k = 0)"
proof -
  have "length tops = min topK (length (h ! la))"
    unfolding tops_def by (rule topItems_facts(1))
  with ne k have topne: "tops \<noteq> []" by (cases "h ! la") auto
  have srt: "sorted_wrt (\<lambda>a b. val b \<le> val a) tops"
    unfolding tops_def by (rule topItems_facts(4))
  from softmaxTop_spec [OF topne, of fexp rnd d] obtain ps0 where ps0:
    "softmaxTop fexp rnd d tops = Inr ps0" "length ps0 = length tops"
    "map tokenId ps0 = map idx tops" "map logit ps0 = map rawLogit tops"
    "map word ps0 = map (\<lambda>it. d (idx it)) tops"
    "\<forall>p\<in>set ps0. \<not> inNucleus p \<and> \<not> isSampled p"
    by blast
  have ps0ne: "ps0 \<noteq> []" using ps0(2) topne by auto
  have res: "snd (computePredictions fexp rnd fround d r h la temperature topK topP)
      = sampleNucleus rnd r topP ps0"
    unfolding computePredictions_unfold [OF la] using ps0(1) by (simp add: tops_def)
  from sampleNucleus_spec [OF ps0ne ps0(6), of rnd r topP] obtain n k where nk:
    "0 < n" "n \<le> length ps0" "k < n"
    "sampleNucleus rnd r topP ps0
         = Inr ((withNucleus rnd n ps0)[k := (withNucleus rnd n ps0 ! k)\<lparr>isSampled := True\<rparr>])"
    "n < length ps0 \<longrightarrow> topP \<le> runningSum rnd (map prob (take n ps0))"
    "\<forall>m. 0 < m \<and> m < n \<longrightarrow> runningSum rnd (map prob (take m ps0)) < topP"
    "if \<exists>j<n. r \<le> cumNucleus rnd n ps0 j
         then r \<le> cumNucleus rnd n ps0 k \<and> (\<forall>j<k. cumNucleus rnd n ps0 j < r)
         else k = 0"
    by blast
  have final: "snd (computePredictions fexp rnd fround d r h la temperature topK topP)
         = Inr ((withNucleus rnd n ps0)[k := (withNucleus rnd n ps0 ! k)\<lparr>isSampled := True\<rparr>])"
    using res nk(4) by simp
  show ?thesis
    by (rule exI [of _ ps0], rule exI [of _ n], rule exI [of _ k]) (intro conjI; fact)
qed

lemma computePredictions_empty:
  assumes "logits < length h" and "h ! logits = [] \<or> topK = 0"
  shows "snd (computePredictions fexp rnd fround decodeToken r h logits temperature topK topP) = Inl TypeError"
proof -
  have e: "take topK (sortItems (scaledItems fround (h ! logits) (max temperature (1 / 100)))) = []"
    using assms(2) by (auto simp: scaledItems_def sortItems_def)
  show ?thesis
    unfolding computePredictions_unfold [OF assms(1)] e by (simp add: softmaxTop_def)
qed

lemmas cp_defs = computePredictions_def newFloat32Array_def scaleLoop_def scaleStep_def
      writeAt_def readAt_def mkIndexed_def sortItems_def cmp_def softmaxTop_def withExp_def
      toPrediction_def sampleNucleus_def nucleusRefs_def renormalize_def fallback_def Let_def
      upt_conv_Cons

lemma computePredictions_example:
  "computePredictions exp (\<lambda>x. x) (\<lambda>x. x) (\<lambda>i. ''w'') (3 / 4) [[2, 2]] 0 1 2 1 =
    ([[2, 2], [2, 2]],
     Inr [\<lparr>word = ''w'', prob = 1 / 2, logit = 2, tokenId = 0, inNucleus = True,
            isSampled = False, nucleusProb = 1 / 2\<rparr>,
          \<lparr>word = ''w'', prob = 1 / 2, logit = 2, tokenId = 1, inNucleus = True,
            isSampled = True, nucleusProb = 1 / 2\<rparr>])"
  by (simp add: cp_defs)

subsection \<open>Exactly one sampled member\<close>

text \<open>
  Claim C1. For a non-empty scores array and \<open>topK \<ge> 1\<close> (any temperature, \<open>topP\<close> and
  draw \<open>r\<close>), \<open>computePredictions\<close> returns a list with exactly one member whose
  \<open>isSampled\<close> is true. That member is member \<open>k\<close> of the nucleus, where \<open>k\<close> is the first
  position at which the running sum of \<open>nucleusProb\<close>, as the loop accumulates it with
  every sum rounded, reaches \<open>r\<close> (\<open>r \<le> cum\<close>), and \<open>k = 0\<close>, the first nucleus member,
  when no position does.
\<close>

theorem computePredictions_one_sampled:
  assumes "logits < length h" and "h ! logits \<noteq> []" and "0 < topK"
  shows "\<exists>ps k. snd (computePredictions fexp rnd fround decodeToken r h logits temperature topK topP) = Inr ps
     \<and> length (filter isSampled ps) = 1
     \<and> k < length (filter inNucleus ps)
     \<and> isSampled (filter inNucleus ps ! k)
     \<and> (if \<exists>j<length (filter inNucleus ps). r \<le> cumAfter rnd (filter inNucleus ps) j
         then r \<le> cumAfter rnd (filter inNucleus ps) k
            \<and> (\<forall>j<k. cumAfter rnd (filter inNucleus ps) j < r)
         else k = 0)"
proof -
  from computePredictions_result [OF assms, where d = decodeToken and fexp = fexp and rnd = rnd and fround = fround
      and temperature = temperature and r = r and topP = topP]
  obtain ps0 n k where a:
    "\<forall>p\<in>set ps0. \<not> inNucleus p \<and> \<not> isSampled p"
    "0 < n" "n \<le> length ps0" "k < n"
    "snd (computePredictions fexp rnd fround decodeToken r h logits temperature topK topP)
         = Inr ((withNucleus rnd n ps0)[k := (withNucleus rnd n ps0 ! k)\<lparr>isSampled := True\<rparr>])"
    "if \<exists>j<n. r \<le> cumNucleus rnd n ps0 j
         then r \<le> cumNucleus rnd n ps0 k \<and> (\<forall>j<k. cumNucleus rnd n ps0 j < r)
         else k = 0"
    by blast
  define qs where "qs = (withNucleus rnd n ps0)[k := (withNucleus rnd n ps0 ! k)\<lparr>isSampled := True\<rparr>]"
  note clean = a(1)
  note ff = final_fields [OF a(3) a(4) clean, where rnd = rnd, folded qs_def]
  have nuc: "filter inNucleus qs = take n qs" by (rule ff(10))
  have len: "length (take n qs) = n" using ff(1) a(3) by simp
  have cum: "cumAfter rnd (take n qs) j = cumNucleus rnd n ps0 j" if "j < n" for j
    unfolding qs_def using a(3) a(4) that by (rule cumAfter_take)
  have sampled: "isSampled (take n qs ! k)" using ff(8) a(3,4) by simp
  have c1: "(\<exists>j<n. r \<le> cumAfter rnd (take n qs) j) \<longleftrightarrow> (\<exists>j<n. r \<le> cumNucleus rnd n ps0 j)"
    using cum by auto
  have c2: "(\<forall>j<k. cumAfter rnd (take n qs) j < r) \<longleftrightarrow> (\<forall>j<k. cumNucleus rnd n ps0 j < r)"
    using cum a(4) by auto
  have r1: "snd (computePredictions fexp rnd fround decodeToken r h logits temperature topK topP) = Inr qs"
    using a(5) by (simp only: qs_def)
  have r2: "length (filter isSampled qs) = 1" by (rule ff(9))
  have r3: "k < length (filter inNucleus qs)" unfolding nuc len by (rule a(4))
  have r4: "isSampled (filter inNucleus qs ! k)" unfolding nuc by (rule sampled)
  have r5: "if \<exists>j<length (filter inNucleus qs). r \<le> cumAfter rnd (filter inNucleus qs) j
         then r \<le> cumAfter rnd (filter inNucleus qs) k
            \<and> (\<forall>j<k. cumAfter rnd (filter inNucleus qs) j < r)
         else k = 0"
    unfolding nuc len c1 c2 cum [OF a(4)] by (rule a(6))
  show ?thesis
    by (rule exI [of _ qs], rule exI [of _ k]) (intro conjI; fact)
qed

theorem computePredictions_one_sampled_witness:
  "(0::nat) < length [[2, 2 :: real]] \<and> [[2, 2 :: real]] ! 0 \<noteq> [] \<and> (0::nat) < 2
   \<and> (\<exists>ps k. snd (computePredictions exp (\<lambda>x. x) (\<lambda>x. x) (\<lambda>i. ''w'') (3 / 4) [[2, 2]] 0 1 2 1) = Inr ps
     \<and> length (filter isSampled ps) = 1
     \<and> k < length (filter inNucleus ps)
     \<and> isSampled (filter inNucleus ps ! k)
     \<and> (if \<exists>j<length (filter inNucleus ps). 3 / 4 \<le> cumAfter (\<lambda>x. x) (filter inNucleus ps) j
         then 3 / 4 \<le> cumAfter (\<lambda>x. x) (filter inNucleus ps) k
            \<and> (\<forall>j<k. cumAfter (\<lambda>x. x) (filter inNucleus ps) j < 3 / 4)
         else k = 0))"
proof -
  have h1: "(0::nat) < length [[2, 2 :: real]]" by simp
  have h2: "[[2, 2 :: real]] ! 0 \<noteq> []" by simp
  have h3: "(0::nat) < 2" by simp
  show ?thesis
    by (intro conjI h1 h2 h3 computePredictions_one_sampled [OF h1 h2 h3])
qed

subsection \<open>Top-k selection\<close>

text \<open>
  Claim C2, amended to non-empty scores. For a non-empty scores array and \<open>topK \<ge> 1\<close>,
  \<open>computePredictions\<close> returns \<open>min topK |scores|\<close> predictions; each carries a candidate
  index, its raw score and its decoded word; they are ordered by descending scaled score,
  equal scaled scores by ascending index; and every candidate left out ranks after every
  candidate returned in that order.
\<close>

theorem computePredictions_topK:
  assumes "logits < length h" and "h ! logits \<noteq> []" and "0 < topK"
  shows "\<exists>ps. snd (computePredictions fexp rnd fround decodeToken r h logits temperature topK topP) = Inr ps
     \<and> length ps = min topK (length (h ! logits))
     \<and> (\<forall>p\<in>set ps. tokenId p < length (h ! logits) \<and> logit p = h ! logits ! tokenId p
           \<and> word p = decodeToken (tokenId p))
     \<and> sorted_wrt (\<lambda>p q. ranksBefore (scaledScore fround (h ! logits) temperature)
                            (tokenId p) (tokenId q)) ps
     \<and> (\<forall>j<length (h ! logits). j \<notin> tokenId ` set ps \<longrightarrow>
           (\<forall>p\<in>set ps. ranksBefore (scaledScore fround (h ! logits) temperature) (tokenId p) j))"
proof -
  let ?scores = "h ! logits"
  let ?sc = "scaledScore fround ?scores temperature"
  define tops where "tops = take topK (sortItems (scaledItems fround ?scores (max temperature (1 / 100))))"
  note tf = topItems_facts [where fround = fround and scores = "?scores" and temperature = temperature
      and topK = topK, folded tops_def]
  from computePredictions_result [OF assms, where d = decodeToken and fexp = fexp and rnd = rnd and fround = fround
      and temperature = temperature and r = r and topP = topP,
      folded tops_def]
  obtain ps0 n k where a:
    "length ps0 = length tops"
    "map tokenId ps0 = map idx tops" "map logit ps0 = map rawLogit tops"
    "map word ps0 = map (\<lambda>it. decodeToken (idx it)) tops"
    "\<forall>p\<in>set ps0. \<not> inNucleus p \<and> \<not> isSampled p"
    "n \<le> length ps0" "k < n"
    "snd (computePredictions fexp rnd fround decodeToken r h logits temperature topK topP)
         = Inr ((withNucleus rnd n ps0)[k := (withNucleus rnd n ps0 ! k)\<lparr>isSampled := True\<rparr>])"
    by blast
  define qs where "qs = (withNucleus rnd n ps0)[k := (withNucleus rnd n ps0 ! k)\<lparr>isSampled := True\<rparr>]"
  note clean = a(5)
  note ff = final_fields [OF a(6) a(7) clean, where rnd = rnd, folded qs_def]
  have len: "length qs = length tops" using ff(1) a(1) by simp
  have ids: "map tokenId qs = map idx tops" using ff(2) a(2) by simp
  have lgs: "map logit qs = map rawLogit tops" using ff(4) a(3) by simp
  have wds: "map word qs = map (\<lambda>it. decodeToken (idx it)) tops" using ff(5) a(4) by simp
  have nth: "tokenId (qs ! i) = idx (tops ! i) \<and> logit (qs ! i) = rawLogit (tops ! i)
      \<and> word (qs ! i) = decodeToken (idx (tops ! i))" if "i < length tops" for i
  proof -
    have "map tokenId qs ! i = map idx tops ! i" "map logit qs ! i = map rawLogit tops ! i"
      "map word qs ! i = map (\<lambda>it. decodeToken (idx it)) tops ! i"
      using ids lgs wds by simp_all
    then show ?thesis using that len by simp
  qed
  have idset: "tokenId ` set qs = idx ` set tops"
    using ids by (metis set_map)
  have r1: "snd (computePredictions fexp rnd fround decodeToken r h logits temperature topK topP) = Inr qs"
    using a(8) by (simp only: qs_def)
  have r2: "length qs = min topK (length ?scores)" using len tf(1) by simp
  have r3: "\<forall>p\<in>set qs. tokenId p < length ?scores \<and> logit p = ?scores ! tokenId p
           \<and> word p = decodeToken (tokenId p)"
  proof
    fix p assume "p \<in> set qs"
    then obtain i where i: "i < length tops" "p = qs ! i" using len by (auto simp: in_set_conv_nth)
    then have "tops ! i \<in> set tops" by simp
    with tf(2) have "idx (tops ! i) < length ?scores \<and> rawLogit (tops ! i) = ?scores ! idx (tops ! i)"
      by blast
    with nth [OF i(1)] i(2) show "tokenId p < length ?scores \<and> logit p = ?scores ! tokenId p
           \<and> word p = decodeToken (tokenId p)" by simp
  qed
  have "sorted_wrt (ranksBefore ?sc) (map idx tops)" using tf(3) by (simp add: sorted_wrt_map)
  then have "sorted_wrt (ranksBefore ?sc) (map tokenId qs)" using ids by simp
  then have r4: "sorted_wrt (\<lambda>p q. ranksBefore ?sc (tokenId p) (tokenId q)) qs"
    by (simp add: sorted_wrt_map)
  have r5: "\<forall>j<length ?scores. j \<notin> tokenId ` set qs \<longrightarrow>
           (\<forall>p\<in>set qs. ranksBefore ?sc (tokenId p) j)"
  proof (intro allI impI ballI)
    fix j p assume j: "j < length ?scores" "j \<notin> tokenId ` set qs" and p: "p \<in> set qs"
    from p have "tokenId p \<in> idx ` set tops" using idset by blast
    then obtain a where "a \<in> set tops" "tokenId p = idx a" by blast
    moreover have "j \<notin> idx ` set tops" using j(2) idset by simp
    ultimately show "ranksBefore ?sc (tokenId p) j" using tf(5) j(1) by simp
  qed
  show ?thesis
    by (rule exI [of _ qs]) (intro conjI; fact)
qed

theorem computePredictions_topK_witness:
  "(0::nat) < length [[1, 3, 3 :: real]] \<and> [[1, 3, 3 :: real]] ! 0 \<noteq> [] \<and> (0::nat) < 2
   \<and> (\<exists>ps. snd (computePredictions exp (\<lambda>x. x) (\<lambda>x. x) (\<lambda>i. ''w'') (1 / 4) [[1, 3, 3]] 0 1 2 1) = Inr ps
     \<and> length ps = min 2 (length ([[1, 3, 3 :: real]] ! 0))
     \<and> (\<forall>p\<in>set ps. tokenId p < length ([[1, 3, 3 :: real]] ! 0)
           \<and> logit p = [[1, 3, 3]] ! 0 ! tokenId p \<and> word p = (\<lambda>i. ''w'') (tokenId p))
     \<and> sorted_wrt (\<lambda>p q. ranksBefore (scaledScore (\<lambda>x. x) ([[1, 3, 3]] ! 0) 1)
                            (tokenId p) (tokenId q)) ps
     \<and> (\<forall>j<length ([[1, 3, 3 :: real]] ! 0). j \<notin> tokenId ` set ps \<longrightarrow>
           (\<forall>p\<in>set ps. ranksBefore (scaledScore (\<lambda>x. x) ([[1, 3, 3]] ! 0) 1) (tokenId p) j)))"
proof -
  have h1: "(0::nat) < length [[1, 3, 3 :: real]]" by simp
  have h2: "[[1, 3, 3 :: real]] ! 0 \<noteq> []" by simp
  have h3: "(0::nat) < 2" by simp
  show ?thesis
    by (intro conjI h1 h2 h3 computePredictions_topK [OF h1 h2 h3])
qed

text \<open>
  Claim C2 as stated, for every scores array, fails on the empty array: no list is
  returned, \<open>topItems[0].val\<close> raises.
\<close>

theorem computePredictions_topK_counterexample:
  "snd (computePredictions exp (\<lambda>x. x) (\<lambda>x. x) (\<lambda>i. ''w'') (1 / 2) [[]] 0 1 3 (9 / 10)) = Inl TypeError"
  by (simp add: cp_defs)

subsection \<open>The nucleus is a prefix\<close>

lemma nucleus_rounded:
  assumes "logits < length h" and "h ! logits \<noteq> []" and "0 < topK"
  shows "\<exists>ps n. snd (computePredictions fexp rnd fround decodeToken r h logits temperature topK topP) = Inr ps
     \<and> 0 < n \<and> n \<le> length ps
     \<and> (\<forall>i<length ps. inNucleus (ps ! i) \<longleftrightarrow> i < n)
     \<and> (n < length ps \<longrightarrow> topP \<le> cumProbAfter rnd ps n)
     \<and> (\<forall>m. 0 < m \<and> m < n \<longrightarrow> cumProbAfter rnd ps m < topP)
     \<and> (orderPreserving fexp rnd \<longrightarrow> sorted_wrt (\<lambda>p q. prob q \<le> prob p) ps)"
proof -
  from computePredictions_result [OF assms, where d = decodeToken and fexp = fexp and rnd = rnd and fround = fround
      and temperature = temperature and r = r and topP = topP]
  obtain tops ps0 n k where a:
    "softmaxTop fexp rnd decodeToken tops = Inr ps0"
    "sorted_wrt (\<lambda>a b. val b \<le> val a) tops"
    "\<forall>p\<in>set ps0. \<not> inNucleus p \<and> \<not> isSampled p"
    "0 < n" "n \<le> length ps0" "k < n"
    "snd (computePredictions fexp rnd fround decodeToken r h logits temperature topK topP)
         = Inr ((withNucleus rnd n ps0)[k := (withNucleus rnd n ps0 ! k)\<lparr>isSampled := True\<rparr>])"
    "n < length ps0 \<longrightarrow> topP \<le> runningSum rnd (map prob (take n ps0))"
    "\<forall>m. 0 < m \<and> m < n \<longrightarrow> runningSum rnd (map prob (take m ps0)) < topP"
    by blast
  define qs where "qs = (withNucleus rnd n ps0)[k := (withNucleus rnd n ps0 ! k)\<lparr>isSampled := True\<rparr>]"
  note ff = final_fields [OF a(5) a(6) a(3), where rnd = rnd, folded qs_def]
  have probs: "map prob qs = map prob ps0" by (rule ff(3))
  have cp: "cumProbAfter rnd qs m = runningSum rnd (map prob (take m ps0))" for m
    unfolding cumProbAfter_def take_map [symmetric] probs ..
  have r1: "snd (computePredictions fexp rnd fround decodeToken r h logits temperature topK topP) = Inr qs"
    using a(7) by (simp only: qs_def)
  have r2: "n \<le> length qs" unfolding ff(1) by (rule a(5))
  have r3: "\<forall>i<length qs. inNucleus (qs ! i) \<longleftrightarrow> i < n" unfolding ff(1) by (rule ff(7))
  have r4: "n < length qs \<longrightarrow> topP \<le> cumProbAfter rnd qs n" unfolding cp ff(1) by (rule a(8))
  have r5: "\<forall>m. 0 < m \<and> m < n \<longrightarrow> cumProbAfter rnd qs m < topP" unfolding cp by (rule a(9))
  have r6: "orderPreserving fexp rnd \<longrightarrow> sorted_wrt (\<lambda>p q. prob q \<le> prob p) qs"
  proof
    assume "orderPreserving fexp rnd"
    then have "sorted_wrt (\<lambda>p q. prob q \<le> prob p) ps0" using a(2) a(1) by (rule softmaxTop_sorted)
    then have "sorted_wrt (\<lambda>x y. y \<le> x) (map prob qs)"
      unfolding probs by (simp add: sorted_wrt_map)
    then show "sorted_wrt (\<lambda>p q. prob q \<le> prob p) qs" by (simp add: sorted_wrt_map)
  qed
  note r0 = a(4)
  show ?thesis
    by (rule exI [of _ qs], rule exI [of _ n]) (intro conjI; fact)
qed

lemma nucleus_exact:
  assumes "logits < length h" and "h ! logits \<noteq> []" and "0 < topK"
  shows "\<exists>ps. snd (computePredictions exp (\<lambda>x. x) fround decodeToken r h logits temperature topK topP) = Inr ps
     \<and> (1 \<le> topP \<longrightarrow> (\<forall>p\<in>set ps. inNucleus p))"
proof -
  from computePredictions_result [OF assms, where d = decodeToken and fexp = exp and rnd = "\<lambda>x. x"
      and fround = fround and temperature = temperature and r = r and topP = topP]
  obtain tops ps0 n k where a:
    "softmaxTop exp (\<lambda>x. x) decodeToken tops = Inr ps0"
    "\<forall>p\<in>set ps0. \<not> inNucleus p \<and> \<not> isSampled p"
    "0 < n" "n \<le> length ps0" "k < n"
    "snd (computePredictions exp (\<lambda>x. x) fround decodeToken r h logits temperature topK topP)
         = Inr ((withNucleus (\<lambda>x. x) n ps0)[k := (withNucleus (\<lambda>x. x) n ps0 ! k)\<lparr>isSampled := True\<rparr>])"
    "n < length ps0 \<longrightarrow> topP \<le> runningSum (\<lambda>x. x) (map prob (take n ps0))"
    by blast
  define qs where "qs = (withNucleus (\<lambda>x. x) n ps0)[k := (withNucleus (\<lambda>x. x) n ps0 ! k)\<lparr>isSampled := True\<rparr>]"
  note ff = final_fields [OF a(4) a(5) a(2), where rnd = "\<lambda>x. x", folded qs_def]
  from softmaxTop_exact [OF a(1)]
  have pos: "\<forall>p\<in>set ps0. 0 < prob p" and one: "sum_list (map prob ps0) = 1" by blast+
  have full: "n = length ps0" if "1 \<le> topP"
  proof (rule ccontr)
    assume "n \<noteq> length ps0"
    then have lt: "n < length ps0" using a(4) by simp
    then have "drop n ps0 \<noteq> []" by simp
    then obtain p rest where d: "drop n ps0 = p # rest" by (cases "drop n ps0") auto
    then have "p \<in> set ps0" by (metis in_set_dropD list.set_intros(1))
    then have "0 < prob p" using pos by blast
    moreover have "0 \<le> sum_list (map prob rest)"
    proof (rule sum_list_nonneg)
      fix x assume "x \<in> set (map prob rest)"
      then obtain q where "q \<in> set rest" "x = prob q" by auto
      then have "q \<in> set ps0" using d by (metis in_set_dropD list.set_intros(2))
      then show "0 \<le> x" using pos \<open>x = prob q\<close> by fastforce
    qed
    ultimately have rest: "0 < sum_list (map prob (drop n ps0))" using d by simp
    have "sum_list (map prob (take n ps0)) + sum_list (map prob (drop n ps0)) = 1"
      using one by (metis append_take_drop_id map_append sum_list_append)
    with rest have "sum_list (map prob (take n ps0)) < 1" by simp
    moreover have "topP \<le> sum_list (map prob (take n ps0))"
      using a(7) lt by (simp add: runningSum_exact)
    ultimately show False using that by simp
  qed
  have r1: "snd (computePredictions exp (\<lambda>x. x) fround decodeToken r h logits temperature topK topP) = Inr qs"
    using a(6) by (simp only: qs_def)
  have r2: "1 \<le> topP \<longrightarrow> (\<forall>p\<in>set qs. inNucleus p)"
  proof (intro impI ballI)
    fix p assume "1 \<le> topP" and "p \<in> set qs"
    then obtain i where "i < length qs" "p = qs ! i" by (auto simp: in_set_conv_nth)
    then show "inNucleus p" using ff(7) ff(1) full [OF \<open>1 \<le> topP\<close>] by simp
  qed
  show ?thesis
    by (rule exI [of _ qs]) (intro conjI; fact)
qed

text \<open>The rounding of doubles at the numbers that the example below rounds.\<close>

lemma exp_minus_40: "exp (- 40 :: real) < 1 / 2 ^ 54"
proof -
  have "(1 + 40 / of_nat 320) ^ 320 \<le> exp (40::real)"
    by (rule exp_ge_one_plus_x_over_n_power_n) simp_all
  moreover have "(1 + 40 / of_nat 320 :: real) = 9 / 8" by simp
  ultimately have "(9 / 8 :: real) ^ 320 \<le> exp 40" by simp
  moreover have "(2::real) ^ 54 < (9 / 8) ^ 320" by (simp add: power_divide)
  ultimately have "(2::real) ^ 54 < exp 40" by linarith
  then have "1 / exp (40::real) < 1 / 2 ^ 54"
    by (intro divide_strict_left_mono) simp_all
  then show ?thesis by (simp add: exp_minus inverse_eq_divide)
qed

lemma roundDouble_0: "roundDouble 0 = 0"
  by (simp add: roundDouble_def)

lemma roundDouble_1: "roundDouble 1 = 1"
  by (simp add: roundDouble_def powr_minus divide_simps)

lemma round_of_int_real: "round (of_int n :: real) = n"
  by (simp add: round_def)

lemma roundDouble_minus_40: "roundDouble (- 40) = - 40"
proof -
  have fl: "\<lfloor>log 2 (40::real)\<rfloor> = 5"
    by (subst floor_log_eq_powr_iff) simp_all
  have ulp: "(2::real) powr (of_int 5 - 52) = 1 / 140737488355328"
    by (simp add: powr_minus inverse_eq_divide)
  have "roundDouble (- 40)
      = of_int (round (- 40 / (1 / 140737488355328 :: real))) * (1 / 140737488355328)"
    unfolding roundDouble_def Let_def by (simp only: abs_minus_cancel abs_numeral fl ulp) simp
  also have "- 40 / (1 / 140737488355328 :: real) = of_int (- 5629499534213120)" by simp
  also have "of_int (round (of_int (- 5629499534213120) :: real)) * (1 / 140737488355328)
      = (- 40 :: real)"
    unfolding round_of_int_real by simp
  finally show ?thesis .
qed

lemma roundDouble_above_1:
  assumes "0 < e" and "e < 1 / 2 ^ 54"
  shows "roundDouble (1 + e) = 1"
proof -
  have fl: "\<lfloor>log 2 \<bar>1 + e\<bar>\<rfloor> = 0"
    using assms by (subst floor_log_eq_powr_iff) simp_all
  have ulp: "(2::real) powr (of_int 0 - 52) = 1 / 4503599627370496"
    by (simp add: powr_minus inverse_eq_divide)
  have ne: "1 + e \<noteq> 0" using assms by simp
  have r: "round ((1 + e) / (1 / 4503599627370496)) = 4503599627370496"
  proof -
    have "e * 2 ^ 52 < 1 / 4" using assms(2) by simp
    then show ?thesis using assms(1) unfolding round_def
      by (intro floor_unique) (simp_all add: algebra_simps)
  qed
  have "roundDouble (1 + e)
      = of_int (round ((1 + e) / (1 / 4503599627370496))) * (1 / 4503599627370496)"
    unfolding roundDouble_def Let_def fl ulp using ne by (simp only: if_False)
  also have "\<dots> = 1" unfolding r by simp
  finally show ?thesis .
qed

lemma roundDouble_sumExp: "roundDouble (1 + exp (- 40)) = 1"
  by (rule roundDouble_above_1, simp, rule exp_minus_40)

lemma orderPreserving_exact: "orderPreserving exp (\<lambda>x. x)"
  by (simp add: orderPreserving_def mono_def)

lemma nucleus_example:
  "snd (computePredictions exp (\<lambda>x. x) (\<lambda>x. x) (\<lambda>i. ''w'') (1 / 4) [[1, 1, 1]] 0 1 3 (1 / 2)) =
     Inr [\<lparr>word = ''w'', prob = 1 / 3, logit = 1, tokenId = 0, inNucleus = True,
            isSampled = True, nucleusProb = 1 / 2\<rparr>,
          \<lparr>word = ''w'', prob = 1 / 3, logit = 1, tokenId = 1, inNucleus = True,
            isSampled = False, nucleusProb = 1 / 2\<rparr>,
          \<lparr>word = ''w'', prob = 1 / 3, logit = 1, tokenId = 2, inNucleus = False,
            isSampled = False, nucleusProb = 0\<rparr>]"
  by (simp add: cp_defs)

text \<open>
  Claim C3, amended. In every result of \<open>computePredictions\<close> the members with \<open>inNucleus\<close>
  are exactly the first \<open>n\<close> of the list, for some \<open>n \<ge> 1\<close>: the running sum of \<open>prob\<close>,
  as the loop accumulates it with every sum rounded, is below \<open>topP\<close> after each of the
  first \<open>n - 1\<close> members and, unless the whole list is in the nucleus, is at least \<open>topP\<close>
  after member \<open>n\<close>. The list is in descending order of \<open>prob\<close> when \<open>Math.exp\<close> and the
  rounding keep the order. In exact arithmetic \<open>topP \<ge> 1\<close> puts the whole list in the
  nucleus.
\<close>

theorem computePredictions_nucleus_prefix:
  assumes "logits < length h" and "h ! logits \<noteq> []" and "0 < topK"
  shows "(\<exists>ps n. snd (computePredictions fexp rnd fround decodeToken r h logits temperature topK topP) = Inr ps
       \<and> 0 < n \<and> n \<le> length ps
       \<and> (\<forall>i<length ps. inNucleus (ps ! i) \<longleftrightarrow> i < n)
       \<and> (n < length ps \<longrightarrow> topP \<le> cumProbAfter rnd ps n)
       \<and> (\<forall>m. 0 < m \<and> m < n \<longrightarrow> cumProbAfter rnd ps m < topP)
       \<and> (orderPreserving fexp rnd \<longrightarrow> sorted_wrt (\<lambda>p q. prob q \<le> prob p) ps))
     \<and> (\<exists>ps. snd (computePredictions exp (\<lambda>x. x) fround decodeToken r h logits temperature topK topP) = Inr ps
       \<and> (1 \<le> topP \<longrightarrow> (\<forall>p\<in>set ps. inNucleus p)))"
  using assms by (intro conjI nucleus_rounded nucleus_exact)

theorem computePredictions_nucleus_prefix_witness:
  "(0::nat) < length [[1, 1, 1 :: real]] \<and> [[1, 1, 1 :: real]] ! 0 \<noteq> [] \<and> (0::nat) < 3
   \<and> orderPreserving exp (\<lambda>x. x) \<and> (1::real) \<le> 1
   \<and> (\<exists>ps n. snd (computePredictions exp (\<lambda>x. x) (\<lambda>x. x) (\<lambda>i. ''w'') (1 / 4) [[1, 1, 1]] 0 1 3 (1 / 2)) = Inr ps
       \<and> n = 2 \<and> length ps = 3
       \<and> (\<forall>i<length ps. inNucleus (ps ! i) \<longleftrightarrow> i < n)
       \<and> 1 / 2 \<le> cumProbAfter (\<lambda>x. x) ps n
       \<and> (\<forall>m. 0 < m \<and> m < n \<longrightarrow> cumProbAfter (\<lambda>x. x) ps m < 1 / 2)
       \<and> sorted_wrt (\<lambda>p q. prob q \<le> prob p) ps)
   \<and> (\<exists>ps. snd (computePredictions exp (\<lambda>x. x) (\<lambda>x. x) (\<lambda>i. ''w'') (1 / 4) [[1, 1, 1]] 0 1 3 1) = Inr ps
       \<and> length ps = 3 \<and> (\<forall>p\<in>set ps. inNucleus p))"
proof -
  have h1: "(0::nat) < length [[1, 1, 1 :: real]]" by simp
  have h2: "[[1, 1, 1 :: real]] ! 0 \<noteq> []" by simp
  have h3: "(0::nat) < 3" by simp
  note op = orderPreserving_exact
  have h5: "(1::real) \<le> 1" by simp
  let ?res = "snd (computePredictions exp (\<lambda>x. x) (\<lambda>x. x) (\<lambda>i. ''w'') (1 / 4) [[1, 1, 1]] 0 1 3 (1 / 2))"
  from computePredictions_nucleus_prefix [OF h1 h2 h3, where fexp = exp and rnd = "\<lambda>x. x"
      and fround = "\<lambda>x. x" and decodeToken = "\<lambda>i. ''w''" and r = "1 / 4" and temperature = 1
      and topP = "1 / 2"]
  obtain ps n where a: "?res = Inr ps" "0 < n" "n \<le> length ps"
    "\<forall>i<length ps. inNucleus (ps ! i) \<longleftrightarrow> i < n"
    "n < length ps \<longrightarrow> 1 / 2 \<le> cumProbAfter (\<lambda>x. x) ps n"
    "\<forall>m. 0 < m \<and> m < n \<longrightarrow> cumProbAfter (\<lambda>x. x) ps m < 1 / 2"
    "orderPreserving exp (\<lambda>x. x) \<longrightarrow> sorted_wrt (\<lambda>p q. prob q \<le> prob p) ps"
    by blast
  from a(1) have len: "length ps = 3" and in1: "inNucleus (ps ! 1)" and in2: "\<not> inNucleus (ps ! 2)"
    unfolding nucleus_example by auto
  from a(4) len in1 in2 have "1 < n" and "\<not> 2 < n" by auto
  then have n: "n = 2" by simp
  have c1: "1 / 2 \<le> cumProbAfter (\<lambda>x. x) ps n" using a(5) n len by simp
  have c2: "sorted_wrt (\<lambda>p q. prob q \<le> prob p) ps" using a(7) op by blast
  have first: "\<exists>ps n. ?res = Inr ps
       \<and> n = 2 \<and> length ps = 3
       \<and> (\<forall>i<length ps. inNucleus (ps ! i) \<longleftrightarrow> i < n)
       \<and> 1 / 2 \<le> cumProbAfter (\<lambda>x. x) ps n
       \<and> (\<forall>m. 0 < m \<and> m < n \<longrightarrow> cumProbAfter (\<lambda>x. x) ps m < 1 / 2)
       \<and> sorted_wrt (\<lambda>p q. prob q \<le> prob p) ps"
    using a(1) n len a(4) c1 a(6) c2 by blast
  let ?res1 = "snd (computePredictions exp (\<lambda>x. x) (\<lambda>x. x) (\<lambda>i. ''w'') (1 / 4) [[1, 1, 1]] 0 1 3 1)"
  from computePredictions_nucleus_prefix [OF h1 h2 h3, where fexp = exp and rnd = "\<lambda>x. x"
      and fround = "\<lambda>x. x" and decodeToken = "\<lambda>i. ''w''" and r = "1 / 4" and temperature = 1
      and topP = 1]
  obtain qs m where b: "?res1 = Inr qs" "m \<le> length qs"
    "1 \<le> (1::real) \<longrightarrow> (\<forall>p\<in>set qs. inNucleus p)"
    by auto
  have "length qs = 3" using b(1) by (simp add: cp_defs) auto
  with b h5 have second: "\<exists>ps. ?res1 = Inr ps \<and> length ps = 3 \<and> (\<forall>p\<in>set ps. inNucleus p)"
    by blast
  show ?thesis
    by (intro conjI h1 h2 h3 op h5 first second)
qed

text \<open>
  Claim C3 as stated fails in double arithmetic: with the scores 5 and 1 at temperature
  0.1 the scaled scores are 50 and 10, \<open>sumExp\<close> is 1 + exp (-40) rounded, which is 1, so
  the first probability is 1 and at \<open>topP = 1\<close> the loop stops after the first candidate.
\<close>

theorem computePredictions_nucleus_prefix_counterexample:
  "snd (computePredictions exp roundDouble (\<lambda>x. x) (\<lambda>i. ''w'') (1 / 2) [[5, 1]] 0 (1 / 10) 2 1) =
     Inr [\<lparr>word = ''w'', prob = 1, logit = 5, tokenId = 0, inNucleus = True,
            isSampled = True, nucleusProb = 1\<rparr>,
          \<lparr>word = ''w'', prob = roundDouble (exp (- 40)), logit = 1, tokenId = 1,
            inNucleus = False, isSampled = False, nucleusProb = 0\<rparr>]"
  by (simp add: cp_defs roundDouble_0 roundDouble_1 roundDouble_minus_40 roundDouble_sumExp)

subsection \<open>Empty scores\<close>

lemma run_empty_scores:
  assumes "m_tokenize M inp = Inr (tokens, enc)" and "m_forward M enc = Inr []"
  shows "snd (snd (run M fexp rnd fround r cfg inp st h)) = Inl TypeError"
proof -
  have "snd (computePredictions fexp rnd fround (m_decodeToken M) r (h @ [[]]) (length h)
          (cfg_temperature cfg) (cfg_topK cfg) (cfg_topP cfg)) = Inl TypeError"
    by (rule computePredictions_empty) simp_all
  then show ?thesis
    using assms by (simp add: run_def Let_def split_beta)
qed

text \<open>
  Claim C4, amended. On an empty scores array the pipeline does not short-circuit:
  \<open>computePredictions\<close> has no guard for it and ends in an error, the \<open>TypeError\<close> that
  reading \<open>topItems[0].val\<close> raises, and \<open>run\<close> passes that error on to its caller when
  \<open>forward\<close> yields an empty array. \<open>computePredictions\<close> returns a prediction list
  exactly when the array is non-empty and \<open>topK \<ge> 1\<close>.
\<close>

theorem empty_scores_raise:
  "(logits < length h \<longrightarrow>
      ((\<exists>ps. snd (computePredictions fexp rnd fround decodeToken r h logits temperature topK topP) = Inr ps)
         \<longleftrightarrow> h ! logits \<noteq> [] \<and> 0 < topK)
    \<and> (h ! logits = [] \<longrightarrow>
         snd (computePredictions fexp rnd fround decodeToken r h logits temperature topK topP) = Inl TypeError))
   \<and> (m_tokenize M inp = Inr (tokens, enc) \<and> m_forward M enc = Inr [] \<longrightarrow>
         snd (snd (run M fexp rnd fround r cfg inp st h)) = Inl TypeError)"
proof (intro conjI impI)
  assume la: "logits < length h"
  show "(\<exists>ps. snd (computePredictions fexp rnd fround decodeToken r h logits temperature topK topP) = Inr ps)
         \<longleftrightarrow> h ! logits \<noteq> [] \<and> 0 < topK"
  proof
    assume "\<exists>ps. snd (computePredictions fexp rnd fround decodeToken r h logits temperature topK topP) = Inr ps"
    then obtain ps where ps: "snd (computePredictions fexp rnd fround decodeToken r h logits temperature topK topP) = Inr ps"
      by blast
    have "\<not> (h ! logits = [] \<or> topK = 0)"
    proof
      assume "h ! logits = [] \<or> topK = 0"
      from computePredictions_empty [OF la this, where fexp = fexp and rnd = rnd and fround = fround
          and decodeToken = decodeToken and r = r and temperature = temperature and topP = topP] ps
      show False by simp
    qed
    then show "h ! logits \<noteq> [] \<and> 0 < topK" by simp
  next
    assume "h ! logits \<noteq> [] \<and> 0 < topK"
    then show "\<exists>ps. snd (computePredictions fexp rnd fround decodeToken r h logits temperature topK topP) = Inr ps"
      using computePredictions_result [OF la, where topK = topK and d = decodeToken and fexp = fexp
          and rnd = rnd and fround = fround and temperature = temperature and r = r and topP = topP]
      by blast
  qed
next
  assume "logits < length h" "h ! logits = []"
  then show "snd (computePredictions fexp rnd fround decodeToken r h logits temperature topK topP) = Inl TypeError"
    by (simp add: computePredictions_empty)
next
  assume "m_tokenize M inp = Inr (tokens, enc) \<and> m_forward M enc = Inr []"
  then show "snd (snd (run M fexp rnd fround r cfg inp st h)) = Inl TypeError"
    by (simp add: run_empty_scores)
qed

theorem empty_scores_raise_witness:
  "(0::nat) < length [[] :: real list] \<and> [[] :: real list] ! 0 = []
   \<and> m_tokenize \<lparr>m_tokenize = \<lambda>t. Inr ([], ()), m_forward = \<lambda>e. Inr [],
                   m_decodeToken = \<lambda>i. [], m_getConfig = None\<rparr> [] = Inr ([], ())
   \<and> m_forward \<lparr>m_tokenize = \<lambda>t. Inr ([], ()), m_forward = \<lambda>e. Inr [],
                  m_decodeToken = \<lambda>i. [], m_getConfig = None\<rparr> () = Inr []
   \<and> snd (computePredictions exp (\<lambda>x. x) (\<lambda>x. x) (\<lambda>i. []) (1 / 2) [[]] 0 1 10 (9 / 10)) = Inl TypeError
   \<and> snd (snd (run \<lparr>m_tokenize = \<lambda>t. Inr ([], ()), m_forward = \<lambda>e. Inr [],
                     m_decodeToken = \<lambda>i. [], m_getConfig = None\<rparr>
                 exp (\<lambda>x. x) (\<lambda>x. x) (1 / 2) \<lparr>cfg_temperature = 1, cfg_topK = 10, cfg_topP = 9 / 10\<rparr> []
                 \<lparr>lastLogits = None, lastTokens = None, lastModelConfig = None, currentText = []\<rparr>
                 [[]])) = Inl TypeError"
  using empty_scores_raise [where logits = 0 and h = "[[]]" and fexp = exp and rnd = "\<lambda>x. x"
      and fround = "\<lambda>x. x"
      and decodeToken = "\<lambda>i. []" and r = "1 / 2" and temperature = 1 and topK = 10
      and topP = "9 / 10"
      and M = "\<lparr>m_tokenize = \<lambda>t. Inr ([], ()), m_forward = \<lambda>e. Inr [],
                     m_decodeToken = \<lambda>i. [], m_getConfig = None\<rparr>"
      and inp = "[]" and tokens = "[]" and enc = "()"
      and cfg = "\<lparr>cfg_temperature = 1, cfg_topK = 10, cfg_topP = 9 / 10\<rparr>"
      and st = "\<lparr>lastLogits = None, lastTokens = None, lastModelConfig = None, currentText = []\<rparr>"]
  by simp

text \<open>
  Claim C4 as stated fails: on the empty scores array both \<open>computePredictions\<close> and \<open>run\<close>
  end in an error.
\<close>

theorem empty_scores_counterexample:
  "snd (computePredictions exp (\<lambda>x. x) (\<lambda>x. x) (\<lambda>i. []) (1 / 2) [[]] 0 1 10 (9 / 10)) = Inl TypeError
   \<and> snd (snd (run \<lparr>m_tokenize = \<lambda>t. Inr ([], ()), m_forward = \<lambda>e. Inr [],
                     m_decodeToken = \<lambda>i. [], m_getConfig = None\<rparr>
                 exp (\<lambda>x. x) (\<lambda>x. x) (1 / 2) \<lparr>cfg_temperature = 1, cfg_topK = 10, cfg_topP = 9 / 10\<rparr> []
                 \<lparr>lastLogits = None, lastTokens = None, lastModelConfig = None, currentText = []\<rparr>
                 [])) = Inl TypeError"
  by (simp add: run_def cp_defs)

subsection \<open>The logits array is never written\<close>

lemma recomputePredictions_heap:
  assumes "lastLogits st = Some logits" and "logits < length h"
  shows "take (length h) (fst (recomputePredictions fexp rnd fround decodeToken r cfg st h)) = h"
  using computePredictions_heap [OF assms(2), where fexp = fexp and rnd = rnd and fround = fround
      and decodeToken = decodeToken and r = r and temperature = "cfg_temperature cfg"
      and topK = "cfg_topK cfg" and topP = "cfg_topP cfg"] assms(1)
  by (simp add: recomputePredictions_def split_beta Let_def)

lemma take_take_heap:
  assumes "take (length h) h1 = h" and "take (length h1) h2 = h1"
  shows "take (length h) h2 = h"
proof -
  have "length (take (length h) h1) = length h" using assms(1) by simp
  then have "length h \<le> length h1" by (simp add: min_def split: if_splits)
  then have "take (length h) h2 = take (length h) (take (length h1) h2)" by (simp add: min_def)
  then show ?thesis using assms by simp
qed

lemma recompute_many_heap:
  assumes "lastLogits st = Some logits" and "logits < length h" and "take (length h) h1 = h"
  shows "take (length h)
           (fold (\<lambda>cr hh. fst (recomputePredictions fexp rnd fround decodeToken (snd cr) (fst cr) st hh)) crs h1) = h"
  using assms(3)
proof (induction crs arbitrary: h1)
  case Nil
  then show ?case by simp
next
  case (Cons cr crs)
  have "length (take (length h) h1) = length h" using Cons.prems by simp
  then have "length h \<le> length h1" by (simp add: min_def split: if_splits)
  then have "logits < length h1" using assms(2) by simp
  then have "take (length h1) (fst (recomputePredictions fexp rnd fround decodeToken (snd cr) (fst cr) st h1)) = h1"
    using assms(1) by (intro recomputePredictions_heap) simp_all
  with Cons.prems have "take (length h) (fst (recomputePredictions fexp rnd fround decodeToken (snd cr) (fst cr) st h1)) = h"
    by (rule take_take_heap)
  then show ?case using Cons.IH by simp
qed

text \<open>
  Claim C10. \<open>computePredictions\<close> leaves the \<open>logits\<close> array, and every array that existed
  before the call, as it was: the scaled scores are written into a newly allocated array.
  So after any number of \<open>recomputePredictions\<close> calls, with any settings and draws, the
  array that \<open>lastLogits\<close> refers to still holds the original scores.
\<close>

theorem computePredictions_keeps_logits:
  assumes "logits < length h"
  shows "fst (computePredictions fexp rnd fround decodeToken r h logits temperature topK topP) ! logits = h ! logits
     \<and> take (length h) (fst (computePredictions fexp rnd fround decodeToken r h logits temperature topK topP)) = h
     \<and> (lastLogits st = Some logits \<longrightarrow>
          (fold (\<lambda>cr hh. fst (recomputePredictions fexp rnd fround decodeToken (snd cr) (fst cr) st hh)) crs h)
            ! logits = h ! logits)"
proof (intro conjI impI)
  let ?h2 = "fst (computePredictions fexp rnd fround decodeToken r h logits temperature topK topP)"
  show t: "take (length h) ?h2 = h" using assms by (rule computePredictions_heap)
  have "take (length h) ?h2 ! logits = ?h2 ! logits" using assms by simp
  then show "?h2 ! logits = h ! logits" using t by simp
next
  let ?hn = "fold (\<lambda>cr hh. fst (recomputePredictions fexp rnd fround decodeToken (snd cr) (fst cr) st hh)) crs h"
  assume "lastLogits st = Some logits"
  then have t: "take (length h) ?hn = h" using assms by (intro recompute_many_heap) simp_all
  have "take (length h) ?hn ! logits = ?hn ! logits" using assms by simp
  then show "?hn ! logits = h ! logits" using t by simp
qed

theorem computePredictions_keeps_logits_witness:
  "(0::nat) < length [[2, 2 :: real]]
   \<and> fst (computePredictions exp (\<lambda>x. x) (\<lambda>x. x) (\<lambda>i. ''w'') (3 / 4) [[2, 2]] 0 1 2 1) ! 0 = [[2, 2]] ! 0
   \<and> lastLogits \<lparr>lastLogits = Some 0, lastTokens = None, lastModelConfig = None, currentText = []\<rparr> = Some 0
   \<and> (fold (\<lambda>cr hh. fst (recomputePredictions exp (\<lambda>x. x) (\<lambda>x. x) (\<lambda>i. ''w'') (snd cr) (fst cr)
             \<lparr>lastLogits = Some 0, lastTokens = None, lastModelConfig = None, currentText = []\<rparr> hh))
         [(\<lparr>cfg_temperature = 1, cfg_topK = 2, cfg_topP = 1\<rparr>, 3 / 4),
          (\<lparr>cfg_temperature = 2, cfg_topK = 1, cfg_topP = 1 / 2\<rparr>, 1 / 4)] [[2, 2]]) ! 0 = [[2, 2]] ! 0"
proof -
  have h1: "(0::nat) < length [[2, 2 :: real]]" by simp
  have h2: "lastLogits \<lparr>lastLogits = Some 0, lastTokens = None, lastModelConfig = None, currentText = []\<rparr> = Some 0"
    by simp
  from computePredictions_keeps_logits [OF h1, where fexp = exp and rnd = "\<lambda>x. x" and fround = "\<lambda>x. x"
      and decodeToken = "\<lambda>i. ''w''" and r = "3 / 4" and temperature = 1 and topK = 2 and topP = 1
      and st = "\<lparr>lastLogits = Some 0, lastTokens = None, lastModelConfig = None, currentText = []\<rparr>"
      and crs = "[(\<lparr>cfg_temperature = 1, cfg_topK = 2, cfg_topP = 1\<rparr>, 3 / 4),
          (\<lparr>cfg_temperature = 2, cfg_topK = 1, cfg_topP = 1 / 2\<rparr>, 1 / 4)]"]
  show ?thesis using h1 h2 by blast
qed

section \<open>Properties of viz.js\<close>

subsection \<open>The scene and the camera that build produces\<close>

lemma zoom_animate: "zoom (animate s) = zoom s" "panX (animate s) = panX s" "panY (animate s) = panY s"
  by (simp_all add: animate_def Let_def)

lemma zoom_startAnimation:
  "zoom (startAnimation s) = zoom s" "panX (startAnimation s) = panX s"
  "panY (startAnimation s) = panY s"
  by (simp_all add: startAnimation_def zoom_animate)

lemma columns_animate: "columns (animate s) = columns s" "outputBars (animate s) = outputBars s"
  by (simp_all add: animate_def Let_def)

lemma columns_startAnimation:
  "columns (startAnimation s) = columns s" "outputBars (startAnimation s) = outputBars s"
  by (simp_all add: startAnimation_def columns_animate)

lemma layerLoop_eq:
  "layerLoop sY npl L (x, cols) =
     (x + real L * COLUMN_GAP,
      cols @ map (\<lambda>l. layerColumn (x + real l * COLUMN_GAP) sY npl l) [0..<L])"
proof (induction L)
  case 0
  then show ?case by (simp add: layerLoop_def)
next
  case (Suc L)
  have "layerLoop sY npl (Suc L) (x, cols) = layerStep sY npl L (layerLoop sY npl L (x, cols))"
    by (simp add: layerLoop_def)
  then show ?case
    by (simp add: Suc layerStep_def algebra_simps)
qed

lemma build_eq:
  "build trim fmt canvasW canvasH tokens modelCfg predictions s =
     startAnimation
       (s\<lparr>columns := builtColumns trim fmt tokens (layers modelCfg) predictions,
          outputBars := builtBars (length tokens) (layers modelCfg) predictions,
          animProgress := 0, animTarget := 1, currentModelCfg := Some modelCfg,
          zoom := fitZoom canvasW canvasH (contentWidth (layers modelCfg))
                    (contentHeight (length tokens) (length predictions)),
          panX := (canvasW - contentWidth (layers modelCfg)
                     * fitZoom canvasW canvasH (contentWidth (layers modelCfg))
                         (contentHeight (length tokens) (length predictions))) / 2,
          panY := max ((canvasH - contentHeight (length tokens) (length predictions)
                     * fitZoom canvasW canvasH (contentWidth (layers modelCfg))
                         (contentHeight (length tokens) (length predictions))) / 2) 10\<rparr>)"
proof -
  have x: "LEFT_PADDING + COLUMN_GAP + COLUMN_GAP + real l * COLUMN_GAP = columnX (l + 2)" for l
    by (simp add: columnX_def algebra_simps)
  have x0: "LEFT_PADDING = columnX 0" "columnX 0 + COLUMN_GAP = columnX 1"
    by (simp_all add: columnX_def)
  show ?thesis
    unfolding build_def Let_def layerLoop_eq prod.case builtColumns_def builtBars_def
      contentWidth_def contentHeight_def fitZoom_def logitGap_def
    by (simp only: x append.simps append_assoc) (simp only: x0)
qed

lemma columns_build:
  "columns (build trim fmt canvasW canvasH tokens modelCfg predictions s)
     = builtColumns trim fmt tokens (layers modelCfg) predictions"
  by (simp add: build_eq columns_startAnimation)

lemma outputBars_build:
  "outputBars (build trim fmt canvasW canvasH tokens modelCfg predictions s)
     = builtBars (length tokens) (layers modelCfg) predictions"
  by (simp add: build_eq columns_startAnimation)

lemma camera_build:
  "camera (build trim fmt canvasW canvasH tokens modelCfg predictions s) =
     (let w = contentWidth (layers modelCfg);
          h = contentHeight (length tokens) (length predictions);
          z = fitZoom canvasW canvasH w h
      in (z, (canvasW - w * z) / 2, max ((canvasH - h * z) / 2) 10))"
  by (simp add: build_eq camera_def zoom_startAnimation Let_def)

lemma zoom_build_eq:
  "zoom (build trim fmt canvasW canvasH tokens modelCfg predictions s)
     = fitZoom canvasW canvasH (contentWidth (layers modelCfg))
         (contentHeight (length tokens) (length predictions))"
  by (simp add: build_eq zoom_startAnimation)

lemmas layout_consts = columnX_def logitGap_def LEFT_PADDING_def COLUMN_GAP_def ROW_GAP_def
  TOP_PADDING_def MIN_LOGIT_GAP_def NODE_RADIUS_def

lemma example_scene:
  fixes u :: viz
  defines "u \<equiv> runOps (\<lambda>t. t) (\<lambda>v d. [])
      [Build 800 600 [\<lparr>tok_id = 1, tok_text = ''a''\<rparr>]
         \<lparr>layers = 0, hidden_dim = 768, ffn_dim = 3072, vocab_size = 50257, heads = 12\<rparr>
         [\<lparr>word = ''b'', prob = 1, logit = 2, tokenId = 7, inNucleus = True, isSampled = True,
           nucleusProb = 1\<rparr>]] initViz"
  shows "columns u =
      [\<lparr>c_label = ''TOKENS'', c_color = ''#4ea8de'',
         c_nodes = [\<lparr>n_x = 100, n_y = 80, n_label = ''a'', n_id = Some 1, n_type = TokenT,
                     n_index = 0, n_tokenText = None, n_layer = None, n_word = None,
                     n_prob = None, n_logit = None\<rparr>], c_type = TokenT\<rparr>,
       \<lparr>c_label = ''EMBEDDINGS'', c_color = ''#34d399'',
         c_nodes = [\<lparr>n_x = 170, n_y = 80, n_label = [], n_id = Some 1, n_type = EmbeddingT,
                     n_index = 0, n_tokenText = Some ''a'', n_layer = None, n_word = None,
                     n_prob = None, n_logit = None\<rparr>], c_type = EmbeddingT\<rparr>,
       \<lparr>c_label = ''LOGITS'', c_color = ''#f472b6'',
         c_nodes = [\<lparr>n_x = 240, n_y = 80, n_label = [], n_id = None, n_type = LogitT,
                     n_index = 0, n_tokenText = None, n_layer = None, n_word = Some ''b'',
                     n_prob = Some 1, n_logit = Some 2\<rparr>], c_type = LogitT\<rparr>]"
    and "outputBars u =
      [\<lparr>b_x = 320, b_y = 80, b_word = ''b'', b_prob = 1, b_logit = 2, b_inNucleus = True,
         b_isSampled = True, b_nucleusProb = 1, b_isWinner = True\<rparr>]"
    and "camera u = (4 / 3, 0, 640 / 3)"
  unfolding u_def
  by (simp_all add: runOps_def columns_build outputBars_build camera_build builtColumns_def
      builtBars_def tokenNode_def embedNode_def logitNode_def outputBar_def orZero_def
      contentWidth_def contentHeight_def fitZoom_def layout_consts)

subsection \<open>The scale stays in its bounds\<close>

lemma inRange_clamp: "inRange (clamp v (15 / 100) 4)" "inRange (clamp v (3 / 20) 4)"
  by (auto simp: inRange_def clamp_def)

lemma inRange_fit: "inRange (max (min (min a b) (3 / 2)) (3 / 10))"
  by (auto simp: inRange_def max_def min_def)

lemma inRange_degenerate: "inRange (3 / 10)"
  by (simp add: inRange_def)

lemma fitZoom_bounds:
  "3 / 10 \<le> fitZoom canvasW canvasH w h"
  "fitZoom canvasW canvasH w h \<le> 3 / 2"
  "inRange (fitZoom canvasW canvasH w h)"
  by (auto simp: fitZoom_def inRange_def max_def min_def)

lemma zoom_build:
  "3 / 10 \<le> zoom (build trim fmt canvasW canvasH tokens modelCfg predictions s)"
  "zoom (build trim fmt canvasW canvasH tokens modelCfg predictions s) \<le> 3 / 2"
  by (simp_all only: zoom_build_eq fitZoom_bounds)

lemma camera_build_indep:
  "camera (build trim fmt canvasW canvasH tokens modelCfg predictions s)
     = camera (build trim fmt canvasW canvasH tokens modelCfg predictions s')"
  by (simp only: camera_build)

lemma camera_updatePredictions: "camera (updatePredictions fmt predictions s) = camera s"
  by (simp add: camera_def updatePredictions_def Let_def)

lemma camera_clear: "camera (clear s) = camera s"
  by (simp add: camera_def clear_def)

lemma resetView_shape:
  "resetView canvasW canvasH s = s
   \<or> resetView canvasW canvasH s = s\<lparr>zoom := 3 / 10, panX := NaN, panY := NaN\<rparr>
   \<or> (\<exists>a b px py. resetView canvasW canvasH s
        = s\<lparr>zoom := max (min (min a b) (3 / 2)) (3 / 10), panX := px, panY := py\<rparr>)"
proof (cases "columns s = []")
  case True
  then show ?thesis by (simp add: resetView_def)
next
  case False
  show ?thesis
  proof (cases "map n_x (concat (map c_nodes (columns s)))
                  @ map (\<lambda>b. b_x b + 280) (outputBars s) = []")
    case True
    have "resetView canvasW canvasH s = s\<lparr>zoom := 3 / 10, panX := NaN, panY := NaN\<rparr>"
      unfolding resetView_def Let_def using False True
      by (simp only: if_True if_False simp_thms)
    then show ?thesis by blast
  next
    case nonempty: False
    have "\<exists>a b px py. resetView canvasW canvasH s
        = s\<lparr>zoom := max (min (min a b) (3 / 2)) (3 / 10), panX := px, panY := py\<rparr>"
      unfolding resetView_def Let_def using False nonempty
      by (simp only: if_True if_False simp_thms) (intro exI, rule refl)
    then show ?thesis by blast
  qed
qed

lemma columns_resetView:
  "columns (resetView canvasW canvasH s) = columns s"
  "outputBars (resetView canvasW canvasH s) = outputBars s"
  using resetView_shape [of canvasW canvasH s] by auto

lemma zoom_resetView:
  assumes "inBounds s"
  shows "inBounds (resetView canvasW canvasH s)"
proof -
  have fit: "inBounds (s'\<lparr>zoom := max (min (min a b) (3 / 2)) (3 / 10), panX := px, panY := py\<rparr>)"
    for s' a b px py
    by (simp add: inBounds_def inRange_fit)
  have deg: "inBounds (s\<lparr>zoom := 3 / 10, panX := NaN, panY := NaN\<rparr>)"
    by (simp add: inBounds_def inRange_degenerate)
  show ?thesis
  proof (cases "columns s = []")
    case True
    then show ?thesis using assms by (simp add: resetView_def)
  next
    case False
    show ?thesis
    proof (cases "map n_x (concat (map c_nodes (columns s)))
                    @ map (\<lambda>b. b_x b + 280) (outputBars s) = []")
      case True
      show ?thesis
        unfolding resetView_def Let_def using False True deg
        by (simp only: if_True if_False simp_thms)
    next
      case nonempty: False
      show ?thesis
        unfolding resetView_def Let_def using False nonempty fit
        by (simp only: if_True if_False simp_thms)
    qed
  qed
qed

lemma build_inBounds: "inBounds (build trim fmt canvasW canvasH tokens modelCfg predictions s)"
  by (simp only: inBounds_def zoom_build_eq fitZoom_bounds)

lemma step_inBounds: "inBounds s \<Longrightarrow> inBounds (step trim fmt x s)"
proof (cases x)
  case (Build cw ch tokens cfg preds)
  then show ?thesis by (simp add: build_inBounds)
next
  case (UpdatePredictions preds)
  assume "inBounds s"
  then show ?thesis
    using camera_updatePredictions [of fmt preds s] UpdatePredictions
    by (simp add: inBounds_def camera_def)
next
  case (Wheel e)
  then show ?thesis by (simp add: inBounds_def handleWheel_def Let_def inRange_clamp)
next
  case (MouseDown e)
  assume "inBounds s"
  then show ?thesis using MouseDown by (simp add: inBounds_def handleMouseDown_def)
next
  case (MouseMove e)
  assume "inBounds s"
  then show ?thesis using MouseMove by (simp add: inBounds_def handleMouseMove_def)
next
  case MouseUp
  assume "inBounds s"
  then show ?thesis using MouseUp by (simp add: inBounds_def handleMouseUp_def)
next
  case MouseLeave
  assume "inBounds s"
  then show ?thesis using MouseLeave by (simp add: inBounds_def handleMouseLeave_def)
next
  case ZoomIn
  then show ?thesis by (simp add: inBounds_def zoomIn_def inRange_clamp)
next
  case ZoomOut
  then show ?thesis by (simp add: inBounds_def zoomOut_def inRange_clamp)
next
  case Clear
  assume "inBounds s"
  then show ?thesis using Clear camera_clear [of s] by (simp add: inBounds_def camera_def)
next
  case (ResetView cw ch)
  assume "inBounds s"
  then show ?thesis using ResetView by (simp add: zoom_resetView)
next
  case Frame
  assume "inBounds s"
  then show ?thesis using Frame by (simp add: inBounds_def zoom_animate)
qed

lemma runOps_inBounds: "inBounds s \<Longrightarrow> inBounds (runOps trim fmt ops s)"
  unfolding runOps_def
  by (induction ops arbitrary: s) (simp_all add: step_inBounds)

text \<open>
  Claim C5. The scale starts at 1, and after any sequence of the operations of viz.js
  (wheel zoom, zoomIn, zoomOut, the auto-fit of build, resetView, and every operation
  that leaves the scale alone) it lies in \<open>[0.15, 4]\<close>.
\<close>

theorem camera_scale_bounds:
  "zoom initViz = 1
   \<and> 15 / 100 \<le> zoom (runOps trim fmt ops initViz)
   \<and> zoom (runOps trim fmt ops initViz) \<le> 4"
proof -
  have "inBounds initViz" by (simp add: inBounds_def inRange_def initViz_def)
  then have "inBounds (runOps trim fmt ops initViz)" by (rule runOps_inBounds)
  then show ?thesis by (simp add: inBounds_def inRange_def initViz_def)
qed

theorem camera_scale_bounds_witness:
  "zoom (runOps (\<lambda>t. t) (\<lambda>v d. []) [ZoomIn, ZoomIn, ZoomIn, ZoomIn, ZoomIn, ZoomIn] initViz) = 4
   \<and> 15 / 100 \<le> zoom (runOps (\<lambda>t. t) (\<lambda>v d. [])
                          [ZoomIn, ZoomIn, ZoomIn, ZoomIn, ZoomIn, ZoomIn] initViz)
   \<and> zoom (runOps (\<lambda>t. t) (\<lambda>v d. []) [ZoomIn, ZoomIn, ZoomIn, ZoomIn, ZoomIn, ZoomIn] initViz) \<le> 4"
proof -
  have "zoom (runOps (\<lambda>t. t) (\<lambda>v d. []) [ZoomIn, ZoomIn, ZoomIn, ZoomIn, ZoomIn, ZoomIn] initViz) = 4"
    by (simp add: runOps_def zoomIn_def clamp_def initViz_def)
  with camera_scale_bounds [of "\<lambda>t. t" "\<lambda>v d. []" "[ZoomIn, ZoomIn, ZoomIn, ZoomIn, ZoomIn, ZoomIn]"]
  show ?thesis by blast
qed

subsection \<open>Zoom about the pointer\<close>

text \<open>
  Claim C6. \<open>handleWheel\<close> sets \<open>zoom\<close> to the clamped new scale and \<open>panX\<close> to
  \<open>mx - (mx - panX) * (zoom / prevZoom)\<close>, and then the scene point under the pointer,
  \<open>(mx - panX) / zoom\<close> and \<open>(my - panY) / zoom\<close>, is the same as before, exactly, for every
  camera whose scale is not zero and every pointer position.
\<close>

theorem handleWheel_anchor:
  assumes "zoom s \<noteq> 0"
  shows "zoom (handleWheel e s)
           = clamp (zoom s * (if deltaY e > 0 then 9 / 10 else 11 / 10)) (15 / 100) 4
     \<and> panX (handleWheel e s)
           = (clientX e - rectLeft e)
             - ((clientX e - rectLeft e) - panX s) * (zoom (handleWheel e s) / zoom s)
     \<and> ((clientX e - rectLeft e) - panX (handleWheel e s)) / zoom (handleWheel e s)
           = ((clientX e - rectLeft e) - panX s) / zoom s
     \<and> ((clientY e - rectTop e) - panY (handleWheel e s)) / zoom (handleWheel e s)
           = ((clientY e - rectTop e) - panY s) / zoom s"
proof -
  define z where "z = clamp (zoom s * (if deltaY e > 0 then 9 / 10 else 11 / 10)) (15 / 100) 4"
  have "inRange z" unfolding z_def by (rule inRange_clamp(1))
  then have z: "z \<noteq> 0" by (auto simp: inRange_def)
  have zm: "zoom (handleWheel e s) = z" by (simp add: handleWheel_def Let_def z_def)
  have px: "panX (handleWheel e s)
      = (clientX e - rectLeft e) - ((clientX e - rectLeft e) - panX s) * (z / zoom s)"
    by (simp add: handleWheel_def Let_def z_def)
  have py: "panY (handleWheel e s)
      = (clientY e - rectTop e) - ((clientY e - rectTop e) - panY s) * (z / zoom s)"
    by (simp add: handleWheel_def Let_def z_def)
  have anchor: "(m - (m - (m - p) * (z / zoom s))) / z = (m - p) / zoom s" for m p
    using z assms by (simp add: field_simps)
  show ?thesis
    unfolding zm px py anchor using z_def by simp
qed

theorem handleWheel_anchor_witness:
  "zoom initViz \<noteq> 0
   \<and> ((clientX \<lparr>clientX = 100, clientY = 50, deltaY = - 1, rectLeft = 10, rectTop = 20\<rparr>
         - rectLeft \<lparr>clientX = 100, clientY = 50, deltaY = - 1, rectLeft = 10, rectTop = 20\<rparr>)
        - panX (handleWheel \<lparr>clientX = 100, clientY = 50, deltaY = - 1, rectLeft = 10, rectTop = 20\<rparr> initViz))
       / zoom (handleWheel \<lparr>clientX = 100, clientY = 50, deltaY = - 1, rectLeft = 10, rectTop = 20\<rparr> initViz)
     = 90"
proof -
  let ?e = "\<lparr>clientX = 100, clientY = 50, deltaY = - 1, rectLeft = 10, rectTop = 20\<rparr>"
  have h: "zoom initViz \<noteq> 0" by (simp add: initViz_def)
  from handleWheel_anchor [OF h, of ?e]
  have "((clientX ?e - rectLeft ?e) - panX (handleWheel ?e initViz)) / zoom (handleWheel ?e initViz)
      = ((clientX ?e - rectLeft ?e) - panX initViz) / zoom initViz"
    by blast
  also have "\<dots> = 90" by (simp add: initViz_def)
  finally show ?thesis using h by blast
qed

subsection \<open>What changes the camera\<close>

lemma camera_resetView_empty: "columns s = [] \<Longrightarrow> camera (resetView canvasW canvasH s) = camera s"
  by (simp add: resetView_def)

lemma camera_resetView_fit:
  assumes "columns s \<noteq> []" and "sceneXs s \<noteq> []"
  shows "camera (resetView canvasW canvasH s) =
     (let minX = minOf (sceneXs s) - 80;
          maxX = maxOf (sceneXs s) + 80;
          minY = minOf (sceneYs s) - 60;
          maxY = maxOf (sceneYs s) + 60;
          z = fitZoom canvasW canvasH (maxX - minX) (maxY - minY)
      in (z, (canvasW - (maxX - minX) * z) / 2 - minX * z,
             (canvasH - (maxY - minY) * z) / 2 - minY * z))"
proof -
  have ne: "map n_x (concat (map c_nodes (columns s))) @ map (\<lambda>b. b_x b + 280) (outputBars s) \<noteq> []"
    using assms(2) unfolding sceneXs_def .
  show ?thesis
    unfolding resetView_def Let_def sceneXs_def sceneYs_def fitZoom_def camera_def
    using assms(1) ne by (simp only: if_True if_False simp_thms) simp
qed

lemma zoom_resetView_degenerate:
  assumes "columns s \<noteq> []" and "sceneXs s = []"
  shows "zoom (resetView canvasW canvasH s) = 3 / 10"
proof -
  have e: "map n_x (concat (map c_nodes (columns s))) @ map (\<lambda>b. b_x b + 280) (outputBars s) = []"
    using assms(2) unfolding sceneXs_def .
  show ?thesis
    unfolding resetView_def Let_def using assms(1) e
    by (simp only: if_True if_False simp_thms) simp
qed

text \<open>
  Claim C7, amended. \<open>clear\<close> and the partial update leave the camera (scale and offsets)
  as it is. \<open>build\<close> overwrites it on every run, whatever it was before, with the auto-fit
  of the new scene: for a scene of width \<open>w\<close> and height \<open>h\<close> the scale is
  \<open>min (canvasW / w) (canvasH / h)\<close> brought into \<open>[0.3, 1.5]\<close>, the offsets centre the scene,
  and the vertical offset is at least 10. \<open>resetView\<close> leaves the camera as it is when the
  scene has no columns; otherwise it fits the camera to the box around the nodes and bars
  of the current scene, with a margin of 80 to the left and right and 60 above and below,
  and when the scene has columns but neither nodes nor bars it sets the scale to 0.3.
\<close>

theorem camera_persistence:
  "camera (clear s) = camera s
   \<and> camera (updatePredictions fmt predictions s) = camera s
   \<and> camera (build trim fmt canvasW canvasH tokens modelCfg predictions s)
       = camera (build trim fmt canvasW canvasH tokens modelCfg predictions s')
   \<and> camera (build trim fmt canvasW canvasH tokens modelCfg predictions s) =
       (let w = contentWidth (layers modelCfg);
            h = contentHeight (length tokens) (length predictions);
            z = max (min (min (canvasW / w) (canvasH / h)) (3 / 2)) (3 / 10)
        in (z, (canvasW - w * z) / 2, max ((canvasH - h * z) / 2) 10))
   \<and> 3 / 10 \<le> zoom (build trim fmt canvasW canvasH tokens modelCfg predictions s)
   \<and> zoom (build trim fmt canvasW canvasH tokens modelCfg predictions s) \<le> 3 / 2
   \<and> (columns s = [] \<longrightarrow> camera (resetView canvasW canvasH s) = camera s)
   \<and> (columns s \<noteq> [] \<and> sceneXs s \<noteq> [] \<longrightarrow>
        camera (resetView canvasW canvasH s) =
          (let minX = minOf (sceneXs s) - 80;
               maxX = maxOf (sceneXs s) + 80;
               minY = minOf (sceneYs s) - 60;
               maxY = maxOf (sceneYs s) + 60;
               z = max (min (min (canvasW / (maxX - minX)) (canvasH / (maxY - minY))) (3 / 2)) (3 / 10)
           in (z, (canvasW - (maxX - minX) * z) / 2 - minX * z,
                  (canvasH - (maxY - minY) * z) / 2 - minY * z)))
   \<and> (columns s \<noteq> [] \<and> sceneXs s = [] \<longrightarrow> zoom (resetView canvasW canvasH s) = 3 / 10)"
proof -
  have c1: "camera (clear s) = camera s" by (rule camera_clear)
  have c2: "camera (updatePredictions fmt predictions s) = camera s"
    by (rule camera_updatePredictions)
  have c3: "camera (build trim fmt canvasW canvasH tokens modelCfg predictions s)
       = camera (build trim fmt canvasW canvasH tokens modelCfg predictions s')"
    by (rule camera_build_indep)
  have c4: "camera (build trim fmt canvasW canvasH tokens modelCfg predictions s) =
       (let w = contentWidth (layers modelCfg);
            h = contentHeight (length tokens) (length predictions);
            z = max (min (min (canvasW / w) (canvasH / h)) (3 / 2)) (3 / 10)
        in (z, (canvasW - w * z) / 2, max ((canvasH - h * z) / 2) 10))"
    by (simp only: camera_build fitZoom_def)
  have c5: "3 / 10 \<le> zoom (build trim fmt canvasW canvasH tokens modelCfg predictions s)"
    and c6: "zoom (build trim fmt canvasW canvasH tokens modelCfg predictions s) \<le> 3 / 2"
    by (rule zoom_build)+
  have c7: "columns s = [] \<longrightarrow> camera (resetView canvasW canvasH s) = camera s"
    by (simp add: camera_resetView_empty)
  have c8: "columns s \<noteq> [] \<and> sceneXs s \<noteq> [] \<longrightarrow>
        camera (resetView canvasW canvasH s) =
          (let minX = minOf (sceneXs s) - 80;
               maxX = maxOf (sceneXs s) + 80;
               minY = minOf (sceneYs s) - 60;
               maxY = maxOf (sceneYs s) + 60;
               z = max (min (min (canvasW / (maxX - minX)) (canvasH / (maxY - minY))) (3 / 2)) (3 / 10)
           in (z, (canvasW - (maxX - minX) * z) / 2 - minX * z,
                  (canvasH - (maxY - minY) * z) / 2 - minY * z))"
  proof
    assume "columns s \<noteq> [] \<and> sceneXs s \<noteq> []"
    then have a: "columns s \<noteq> []" "sceneXs s \<noteq> []" by blast+
    show "camera (resetView canvasW canvasH s) =
          (let minX = minOf (sceneXs s) - 80;
               maxX = maxOf (sceneXs s) + 80;
               minY = minOf (sceneYs s) - 60;
               maxY = maxOf (sceneYs s) + 60;
               z = max (min (min (canvasW / (maxX - minX)) (canvasH / (maxY - minY))) (3 / 2)) (3 / 10)
           in (z, (canvasW - (maxX - minX) * z) / 2 - minX * z,
                  (canvasH - (maxY - minY) * z) / 2 - minY * z))"
      by (simp only: camera_resetView_fit [OF a] fitZoom_def)
  qed
  have c9: "columns s \<noteq> [] \<and> sceneXs s = [] \<longrightarrow> zoom (resetView canvasW canvasH s) = 3 / 10"
    by (simp add: zoom_resetView_degenerate)
  show ?thesis
    by (intro conjI; fact)
qed

lemma empty_scene:
  fixes v :: viz
  defines "v \<equiv> runOps (\<lambda>t. t) (\<lambda>v d. [])
      [Build 800 600 []
         \<lparr>layers = 0, hidden_dim = 768, ffn_dim = 3072, vocab_size = 50257, heads = 12\<rparr> []] initViz"
  shows "columns v \<noteq> []" and "sceneXs v = []"
  unfolding v_def
  by (simp_all add: runOps_def sceneXs_def columns_build outputBars_build builtColumns_def
      builtBars_def)

theorem camera_persistence_witness:
  "columns initViz = [] \<and> camera (resetView 800 600 initViz) = camera initViz
   \<and> columns (runOps (\<lambda>t. t) (\<lambda>v d. [])
       [Build 800 600 [\<lparr>tok_id = 1, tok_text = ''a''\<rparr>]
          \<lparr>layers = 0, hidden_dim = 768, ffn_dim = 3072, vocab_size = 50257, heads = 12\<rparr>
          [\<lparr>word = ''b'', prob = 1, logit = 2, tokenId = 7, inNucleus = True, isSampled = True,
            nucleusProb = 1\<rparr>]] initViz) \<noteq> []
   \<and> sceneXs (runOps (\<lambda>t. t) (\<lambda>v d. [])
       [Build 800 600 [\<lparr>tok_id = 1, tok_text = ''a''\<rparr>]
          \<lparr>layers = 0, hidden_dim = 768, ffn_dim = 3072, vocab_size = 50257, heads = 12\<rparr>
          [\<lparr>word = ''b'', prob = 1, logit = 2, tokenId = 7, inNucleus = True, isSampled = True,
            nucleusProb = 1\<rparr>]] initViz) = [100, 170, 240, 600]
   \<and> camera (resetView 800 600 (runOps (\<lambda>t. t) (\<lambda>v d. [])
       [Build 800 600 [\<lparr>tok_id = 1, tok_text = ''a''\<rparr>]
          \<lparr>layers = 0, hidden_dim = 768, ffn_dim = 3072, vocab_size = 50257, heads = 12\<rparr>
          [\<lparr>word = ''b'', prob = 1, logit = 2, tokenId = 7, inNucleus = True, isSampled = True,
            nucleusProb = 1\<rparr>]] initViz)) = (40 / 33, - (800 / 33), 6700 / 33)
   \<and> camera (build (\<lambda>t. t) (\<lambda>v d. []) 800 600 [\<lparr>tok_id = 1, tok_text = ''a''\<rparr>]
         \<lparr>layers = 0, hidden_dim = 768, ffn_dim = 3072, vocab_size = 50257, heads = 12\<rparr>
         [\<lparr>word = ''b'', prob = 1, logit = 2, tokenId = 7, inNucleus = True, isSampled = True,
           nucleusProb = 1\<rparr>] initViz) = (4 / 3, 0, 640 / 3)
   \<and> columns (runOps (\<lambda>t. t) (\<lambda>v d. [])
       [Build 800 600 []
          \<lparr>layers = 0, hidden_dim = 768, ffn_dim = 3072, vocab_size = 50257, heads = 12\<rparr> []]
          initViz) \<noteq> []
   \<and> sceneXs (runOps (\<lambda>t. t) (\<lambda>v d. [])
       [Build 800 600 []
          \<lparr>layers = 0, hidden_dim = 768, ffn_dim = 3072, vocab_size = 50257, heads = 12\<rparr> []]
          initViz) = []
   \<and> zoom (resetView 800 600 (runOps (\<lambda>t. t) (\<lambda>v d. [])
       [Build 800 600 []
          \<lparr>layers = 0, hidden_dim = 768, ffn_dim = 3072, vocab_size = 50257, heads = 12\<rparr> []]
          initViz)) = 3 / 10"
proof -
  define u where "u = runOps (\<lambda>t. t) (\<lambda>v d. [])
       [Build 800 600 [\<lparr>tok_id = 1, tok_text = ''a''\<rparr>]
          \<lparr>layers = 0, hidden_dim = 768, ffn_dim = 3072, vocab_size = 50257, heads = 12\<rparr>
          [\<lparr>word = ''b'', prob = 1, logit = 2, tokenId = 7, inNucleus = True, isSampled = True,
            nucleusProb = 1\<rparr>]] initViz"
  define v where "v = runOps (\<lambda>t. t) (\<lambda>v d. [])
       [Build 800 600 []
          \<lparr>layers = 0, hidden_dim = 768, ffn_dim = 3072, vocab_size = 50257, heads = 12\<rparr> []]
          initViz"
  note ex = example_scene [folded u_def]
  have w1: "columns initViz = []" by (simp add: initViz_def)
  have w2: "columns u \<noteq> []" by (simp add: ex(1))
  have xs: "sceneXs u = [100, 170, 240, 600]" by (simp add: sceneXs_def ex(1,2))
  have ys: "sceneYs u = [80, 80, 80, 80]" by (simp add: sceneYs_def ex(1,2))
  have w3: "sceneXs u \<noteq> []" by (simp add: xs)
  have w4: "columns v \<noteq> []" and w5: "sceneXs v = []"
    using empty_scene [folded v_def] by blast+
  from camera_persistence [where s = initViz and canvasW = 800 and canvasH = 600] w1
  have r1: "camera (resetView 800 600 initViz) = camera initViz" by blast
  from camera_persistence [where s = u and canvasW = 800 and canvasH = 600] w2 w3
  have "camera (resetView 800 600 u) =
          (let minX = minOf (sceneXs u) - 80;
               maxX = maxOf (sceneXs u) + 80;
               minY = minOf (sceneYs u) - 60;
               maxY = maxOf (sceneYs u) + 60;
               z = max (min (min (800 / (maxX - minX)) (600 / (maxY - minY))) (3 / 2)) (3 / 10)
           in (z, (800 - (maxX - minX) * z) / 2 - minX * z,
                  (600 - (maxY - minY) * z) / 2 - minY * z))"
    by blast
  then have r2: "camera (resetView 800 600 u) = (40 / 33, - (800 / 33), 6700 / 33)"
    by (simp add: xs ys Let_def)
  from camera_persistence [where s = initViz and trim = "\<lambda>t. t" and fmt = "\<lambda>v d. []"
      and canvasW = 800 and canvasH = 600 and tokens = "[\<lparr>tok_id = 1, tok_text = ''a''\<rparr>]"
      and modelCfg = "\<lparr>layers = 0, hidden_dim = 768, ffn_dim = 3072, vocab_size = 50257, heads = 12\<rparr>"
      and predictions = "[\<lparr>word = ''b'', prob = 1, logit = 2, tokenId = 7, inNucleus = True,
           isSampled = True, nucleusProb = 1\<rparr>]"]
  have r3: "camera (build (\<lambda>t. t) (\<lambda>v d. []) 800 600 [\<lparr>tok_id = 1, tok_text = ''a''\<rparr>]
         \<lparr>layers = 0, hidden_dim = 768, ffn_dim = 3072, vocab_size = 50257, heads = 12\<rparr>
         [\<lparr>word = ''b'', prob = 1, logit = 2, tokenId = 7, inNucleus = True, isSampled = True,
           nucleusProb = 1\<rparr>] initViz) = (4 / 3, 0, 640 / 3)"
    by (simp add: contentWidth_def contentHeight_def layout_consts Let_def)
  from camera_persistence [where s = v and canvasW = 800 and canvasH = 600] w4 w5
  have r4: "zoom (resetView 800 600 v) = 3 / 10" by blast
  show ?thesis
    unfolding u_def [symmetric] v_def [symmetric]
    by (intro conjI w1 r1 w2 xs r2 r3 w4 w5 r4)
qed

text \<open>
  Claim C7 as stated fails on both counts: after a wheel zoom, \<open>clear\<close> keeps the zoomed
  and panned camera, which is not the initial one, and \<open>build\<close> replaces it.
\<close>

theorem camera_persistence_counterexample:
  "camera initViz = (1, 0, 0)
   \<and> camera (clear (handleWheel \<lparr>clientX = 100, clientY = 100, deltaY = - 1, rectLeft = 0,
                                   rectTop = 0\<rparr> initViz)) = (11 / 10, - 10, - 10)
   \<and> camera (build (\<lambda>t. t) (\<lambda>v d. []) 800 600 [\<lparr>tok_id = 1, tok_text = ''a''\<rparr>]
         \<lparr>layers = 0, hidden_dim = 768, ffn_dim = 3072, vocab_size = 50257, heads = 12\<rparr>
         [\<lparr>word = ''b'', prob = 1, logit = 2, tokenId = 7, inNucleus = True, isSampled = True,
           nucleusProb = 1\<rparr>]
         (handleWheel \<lparr>clientX = 100, clientY = 100, deltaY = - 1, rectLeft = 0,
                       rectTop = 0\<rparr> initViz)) = (4 / 3, 0, 640 / 3)"
  by (simp add: camera_build camera_clear contentWidth_def contentHeight_def fitZoom_def
      layout_consts)
    (simp add: camera_def initViz_def handleWheel_def clamp_def)

subsection \<open>The partial update, index by index\<close>

lemma fold_patch_nodes:
  "fold (\<lambda>i xs. if i < length xs then xs[i := g i (xs ! i)] else xs) [0..<m] xs
     = map (\<lambda>i. if i < m then g i (xs ! i) else xs ! i) [0..<length xs]"
proof (induction m)
  case 0
  then show ?case by (simp add: map_nth)
next
  case (Suc m)
  let ?ys = "map (\<lambda>i. if i < m then g i (xs ! i) else xs ! i) [0..<length xs]"
  let ?zs = "map (\<lambda>i. if i < Suc m then g i (xs ! i) else xs ! i) [0..<length xs]"
  have step: "(if m < length ?ys then ?ys[m := g m (?ys ! m)] else ?ys) = ?zs"
  proof (cases "m < length xs")
    case True
    have "?ys[m := g m (xs ! m)] = ?zs"
    proof (rule nth_equalityI)
      show "length (?ys[m := g m (xs ! m)]) = length ?zs" by simp
    next
      fix i assume "i < length (?ys[m := g m (xs ! m)])"
      then have i: "i < length xs" by simp
      show "?ys[m := g m (xs ! m)] ! i = ?zs ! i"
        using i True by (cases "i = m") (simp_all add: nth_list_update less_Suc_eq)
    qed
    with True show ?thesis by simp
  next
    case False
    have "?ys = ?zs"
      using False by (intro nth_equalityI) simp_all
    with False show ?thesis by simp
  qed
  have "fold (\<lambda>i xs. if i < length xs then xs[i := g i (xs ! i)] else xs) [0..<Suc m] xs
      = (if m < length ?ys then ?ys[m := g m (?ys ! m)] else ?ys)"
    using Suc by simp
  then show ?case using step by simp
qed

lemma fold_patch_bars:
  "fold (\<lambda>i xs. if c i then xs[i := g i (xs ! i)] else xs) [0..<m] xs
     = map (\<lambda>i. if i < m \<and> c i then g i (xs ! i) else xs ! i) [0..<length xs]"
proof (induction m)
  case 0
  then show ?case by (simp add: map_nth)
next
  case (Suc m)
  let ?ys = "map (\<lambda>i. if i < m \<and> c i then g i (xs ! i) else xs ! i) [0..<length xs]"
  let ?zs = "map (\<lambda>i. if i < Suc m \<and> c i then g i (xs ! i) else xs ! i) [0..<length xs]"
  have step: "(if c m then ?ys[m := g m (?ys ! m)] else ?ys) = ?zs"
  proof (cases "c m")
    case True
    have "?ys[m := g m (?ys ! m)] = ?zs"
    proof (rule nth_equalityI)
      show "length (?ys[m := g m (?ys ! m)]) = length ?zs" by simp
    next
      fix i assume "i < length (?ys[m := g m (?ys ! m)])"
      then have i: "i < length xs" by simp
      show "?ys[m := g m (?ys ! m)] ! i = ?zs ! i"
        using i True by (cases "i = m") (simp_all add: nth_list_update less_Suc_eq)
    qed
    with True show ?thesis by simp
  next
    case False
    have "?ys = ?zs"
    proof (rule nth_equalityI)
      show "length ?ys = length ?zs" by simp
    next
      fix i assume "i < length ?ys"
      then have i: "i < length xs" by simp
      show "?ys ! i = ?zs ! i"
        using i False by (cases "i = m") (simp_all add: less_Suc_eq)
    qed
    with False show ?thesis by simp
  qed
  have "fold (\<lambda>i xs. if c i then xs[i := g i (xs ! i)] else xs) [0..<Suc m] xs
      = (if c m then ?ys[m := g m (?ys ! m)] else ?ys)"
    using Suc by simp
  then show ?case using step by simp
qed

lemma patchNodes_eq:
  "patchNodes fmt predictions nodes
     = map (\<lambda>i. if i < length predictions then patchNode fmt (predictions ! i) (nodes ! i)
                 else nodes ! i) [0..<length nodes]"
  unfolding patchNodes_def
  by (rule fold_patch_nodes [where g = "\<lambda>i. patchNode fmt (predictions ! i)"])

lemma patchBars_eq:
  "patchBars predictions bars
     = map (\<lambda>i. if i < length predictions then patchBar (predictions ! i) i (bars ! i)
                 else bars ! i) [0..<length bars]"
proof -
  have "patchBars predictions bars
     = map (\<lambda>i. if i < length bars \<and> i < length predictions
                 then patchBar (predictions ! i) i (bars ! i) else bars ! i) [0..<length bars]"
    unfolding patchBars_def
    by (rule fold_patch_bars [where g = "\<lambda>i. patchBar (predictions ! i) i"
          and c = "\<lambda>i. i < length predictions"])
  then show ?thesis by simp
qed

lemma length_patchNodes: "length (patchNodes fmt predictions nodes) = length nodes"
  by (simp add: patchNodes_eq)

lemma length_patchBars: "length (patchBars predictions bars) = length bars"
  by (simp add: patchBars_eq)

lemma nth_patchNodes:
  "i < length nodes \<Longrightarrow>
     patchNodes fmt predictions nodes ! i
       = (if i < length predictions then patchNode fmt (predictions ! i) (nodes ! i) else nodes ! i)"
  by (simp add: patchNodes_eq)

lemma nth_patchBars:
  "i < length bars \<Longrightarrow>
     patchBars predictions bars ! i
       = (if i < length predictions then patchBar (predictions ! i) i (bars ! i) else bars ! i)"
  by (simp add: patchBars_eq)

lemma map_xy_patchNodes:
  "map n_x (patchNodes fmt predictions nodes) = map n_x nodes"
  "map n_y (patchNodes fmt predictions nodes) = map n_y nodes"
  by (rule nth_equalityI; simp add: length_patchNodes nth_patchNodes patchNode_def)+

lemma findLogit_Some: "findLogit cs = Some k \<Longrightarrow> k < length cs \<and> c_type (cs ! k) = LogitT
    \<and> (\<forall>j<k. c_type (cs ! j) \<noteq> LogitT)"
proof (induction cs arbitrary: k)
  case Nil
  then show ?case by simp
next
  case (Cons c cs)
  show ?case
  proof (cases "c_type c = LogitT")
    case True
    with Cons.prems show ?thesis by simp
  next
    case False
    with Cons.prems obtain k' where k': "findLogit cs = Some k'" "k = Suc k'"
      by (auto split: option.splits)
    from Cons.IH [OF k'(1)] False k'(2) show ?thesis
      by (auto simp: less_Suc_eq_0_disj)
  qed
qed

lemma orZero_id: "orZero v = v"
  by (simp add: orZero_def)

lemma updatePredictions_columns:
  assumes "j < length (columns s)"
  shows "columns (updatePredictions fmt predictions s) ! j =
     (if findLogit (columns s) = Some j
      then (columns s ! j)\<lparr>c_nodes := patchNodes fmt predictions (c_nodes (columns s ! j))\<rparr>
      else columns s ! j)"
proof (cases "columns s = []")
  case True
  then show ?thesis using assms by simp
next
  case False
  show ?thesis
  proof (cases "findLogit (columns s)")
    case None
    then show ?thesis using False by (simp add: updatePredictions_def)
  next
    case (Some k)
    then have "k < length (columns s)" using findLogit_Some by blast
    then show ?thesis
      using Some False assms by (cases "j = k") (simp_all add: updatePredictions_def)
  qed
qed

lemma updatePredictions_lengths:
  "length (columns (updatePredictions fmt predictions s)) = length (columns s)"
  "length (outputBars (updatePredictions fmt predictions s)) = length (outputBars s)"
  by (simp_all add: updatePredictions_def Let_def length_patchBars split: option.splits)

lemma updatePredictions_bars:
  assumes "i < length (outputBars s)" and "b_isWinner (outputBars s ! i) = (i = 0)"
  shows "outputBars (updatePredictions fmt predictions s) ! i =
     (if columns s \<noteq> [] \<and> i < length predictions
      then (outputBars s ! i)\<lparr>b_word := word (predictions ! i), b_prob := prob (predictions ! i),
             b_logit := logit (predictions ! i), b_inNucleus := inNucleus (predictions ! i),
             b_isSampled := isSampled (predictions ! i),
             b_nucleusProb := nucleusProb (predictions ! i)\<rparr>
      else outputBars s ! i)"
proof (cases "columns s = []")
  case True
  then show ?thesis by (simp add: updatePredictions_def)
next
  case False
  have "b\<lparr>b_isWinner := b_isWinner b\<rparr> = b" for b :: bar by simp
  then show ?thesis
    using False assms
    by (simp add: updatePredictions_def Let_def nth_patchBars patchBar_def orZero_id)
qed

subsection \<open>The hit loops\<close>

lemma far_apart:
  fixes a b r :: real
  assumes "r \<le> \<bar>a\<bar> \<or> r \<le> \<bar>b\<bar>" and "0 \<le> r"
  shows "r * r \<le> a * a + b * b"
proof -
  have sq: "r * r \<le> c * c" if "r \<le> \<bar>c\<bar>" for c :: real
  proof -
    have "r * r \<le> \<bar>c\<bar> * \<bar>c\<bar>" using that assms(2) by (intro mult_mono) simp_all
    then show ?thesis by simp
  qed
  have "0 \<le> a * a" "0 \<le> b * b" by simp_all
  with assms(1) sq [of a] sq [of b] show ?thesis by linarith
qed

lemma hit_distance:
  fixes r :: real
  assumes "0 \<le> r"
  shows "(x - x') * (x - x') + (y - y') * (y - y') < r * r \<longleftrightarrow> distance x y x' y' < r"
proof -
  have "sqrt (r * r) = r" using assms by simp
  then have "distance x y x' y' < r
      \<longleftrightarrow> sqrt ((x - x') * (x - x') + (y - y') * (y - y')) < sqrt (r * r)"
    by (simp add: distance_def)
  then show ?thesis by (simp only: real_sqrt_less_iff)
qed

lemma distance_ge_iff:
  fixes r :: real
  assumes "0 \<le> r"
  shows "r \<le> distance x y x' y' \<longleftrightarrow> r * r \<le> (x - x') * (x - x') + (y - y') * (y - y')"
  using hit_distance [OF assms, of x x' y y'] by (simp add: not_less [symmetric])

lemma findBar_find:
  "findBar bars mx my
     = map_option HitBar (find (\<lambda>b. distance mx my (b_x b) (b_y b) < 8) bars)"
proof (induction bars)
  case Nil
  then show ?case by simp
next
  case (Cons b bars)
  have "(mx - b_x b) * (mx - b_x b) + (my - b_y b) * (my - b_y b) < 64
      \<longleftrightarrow> distance mx my (b_x b) (b_y b) < 8"
    using hit_distance [of 8 mx "b_x b" my "b_y b"] by simp
  with Cons show ?case by simp
qed

lemma findInColumn_find:
  "findInColumn ns mx my
     = map_option HitNode (find (\<lambda>n. distance mx my (n_x n) (n_y n) < NODE_RADIUS + 4) ns)"
proof (induction ns)
  case Nil
  then show ?case by simp
next
  case (Cons n ns)
  have "(mx - n_x n) * (mx - n_x n) + (my - n_y n) * (my - n_y n)
          < (NODE_RADIUS + 4) * (NODE_RADIUS + 4)
      \<longleftrightarrow> distance mx my (n_x n) (n_y n) < NODE_RADIUS + 4"
    by (rule hit_distance) (simp add: NODE_RADIUS_def)
  with Cons show ?case by simp
qed

lemma find_append_case:
  "find P (xs @ ys) = (case find P xs of None \<Rightarrow> find P ys | Some x \<Rightarrow> Some x)"
  by (induction xs) simp_all

lemma findNode_find:
  "findNode cols mx my
     = map_option HitNode
         (find (\<lambda>n. distance mx my (n_x n) (n_y n) < NODE_RADIUS + 4) (concat (map c_nodes cols)))"
proof (induction cols)
  case Nil
  then show ?case by simp
next
  case (Cons c cols)
  show ?case
  proof (cases "find (\<lambda>n. distance mx my (n_x n) (n_y n) < NODE_RADIUS + 4) (c_nodes c)")
    case None
    then show ?thesis using Cons by (simp add: findInColumn_find find_append_case)
  next
    case (Some n)
    then show ?thesis by (simp add: findInColumn_find find_append_case)
  qed
qed

lemma hitTest_find:
  "hitTest s mx my =
     (case find (\<lambda>b. distance mx my (b_x b) (b_y b) < 8) (outputBars s) of
        Some b \<Rightarrow> Some (HitBar b)
      | None \<Rightarrow> map_option HitNode
          (find (\<lambda>n. distance mx my (n_x n) (n_y n) < NODE_RADIUS + 4)
             (concat (map c_nodes (columns s)))))"
  by (simp add: hitTest_def findBar_find findNode_find split: option.splits)

lemma findBar_None:
  "\<forall>b\<in>set bars. 64 \<le> (mx - b_x b) * (mx - b_x b) + (my - b_y b) * (my - b_y b)
     \<Longrightarrow> findBar bars mx my = None"
  by (induction bars) auto

lemma findInColumn_None:
  "\<forall>a\<in>set ns. (NODE_RADIUS + 4) * (NODE_RADIUS + 4)
        \<le> (mx - n_x a) * (mx - n_x a) + (my - n_y a) * (my - n_y a)
     \<Longrightarrow> findInColumn ns mx my = None"
  by (induction ns) auto

lemma hitTest_far:
  assumes "\<forall>b\<in>set (outputBars s). 8 \<le> distance mx my (b_x b) (b_y b)"
    and "\<forall>c\<in>set (columns s). \<forall>n\<in>set (c_nodes c). NODE_RADIUS + 4 \<le> distance mx my (n_x n) (n_y n)"
  shows "hitTest s mx my = None"
proof -
  have "find (\<lambda>b. distance mx my (b_x b) (b_y b) < 8) (outputBars s) = None"
    using assms(1) by (fastforce simp: find_None_iff not_less)
  moreover have "find (\<lambda>n. distance mx my (n_x n) (n_y n) < NODE_RADIUS + 4)
      (concat (map c_nodes (columns s))) = None"
    using assms(2) by (fastforce simp: find_None_iff not_less)
  ultimately show ?thesis by (simp add: hitTest_def findBar_find findNode_find)
qed

lemma findInColumn_center:
  assumes "sorted_wrt (\<lambda>a b. n_y a + MIN_LOGIT_GAP \<le> n_y b) ns" and "n \<in> set ns"
  shows "findInColumn ns (n_x n) (n_y n) = Some (HitNode n)"
  using assms
proof (induction ns)
  case Nil
  then show ?case by simp
next
  case (Cons a ns)
  show ?case
  proof (cases "a = n")
    case True
    then show ?thesis by (simp add: NODE_RADIUS_def)
  next
    case False
    with Cons.prems have n: "n \<in> set ns" by simp
    with Cons.prems(1) have "n_y a + MIN_LOGIT_GAP \<le> n_y n" by simp
    then have "10 \<le> \<bar>n_y n - n_y a\<bar>" by (simp add: MIN_LOGIT_GAP_def)
    then have "10 * 10 \<le> (n_x n - n_x a) * (n_x n - n_x a) + (n_y n - n_y a) * (n_y n - n_y a)"
      by (intro far_apart) simp_all
    then have miss: "\<not> (n_x n - n_x a) * (n_x n - n_x a) + (n_y n - n_y a) * (n_y n - n_y a)
        < (NODE_RADIUS + 4) * (NODE_RADIUS + 4)"
      by (simp add: NODE_RADIUS_def)
    from Cons.IH n Cons.prems(1) have "findInColumn ns (n_x n) (n_y n) = Some (HitNode n)" by simp
    with miss show ?thesis by simp
  qed
qed

lemma findNode_grid:
  assumes "\<forall>j<length cols. \<forall>a\<in>set (c_nodes (cols ! j)). n_x a = columnX (k + j)"
    and "\<forall>j<length cols. sorted_wrt (\<lambda>a b. n_y a + MIN_LOGIT_GAP \<le> n_y b) (c_nodes (cols ! j))"
    and "j < length cols" and "n \<in> set (c_nodes (cols ! j))"
  shows "findNode cols (n_x n) (n_y n) = Some (HitNode n)"
  using assms
proof (induction cols arbitrary: k j)
  case Nil
  then show ?case by simp
next
  case (Cons c cols)
  show ?case
  proof (cases j)
    case 0
    with Cons.prems have "sorted_wrt (\<lambda>a b. n_y a + MIN_LOGIT_GAP \<le> n_y b) (c_nodes c)"
      and "n \<in> set (c_nodes c)" by auto
    then have "findInColumn (c_nodes c) (n_x n) (n_y n) = Some (HitNode n)"
      by (rule findInColumn_center)
    then show ?thesis by simp
  next
    case (Suc j')
    have nx: "n_x n = columnX (k + j)" using Cons.prems(1,3,4) by blast
    have "\<forall>a\<in>set (c_nodes c). (NODE_RADIUS + 4) * (NODE_RADIUS + 4)
        \<le> (n_x n - n_x a) * (n_x n - n_x a) + (n_y n - n_y a) * (n_y n - n_y a)"
    proof
      fix a assume "a \<in> set (c_nodes c)"
      then have "n_x a = columnX k" using Cons.prems(1) by force
      then have "n_x n - n_x a = real j * COLUMN_GAP" using nx by (simp add: columnX_def algebra_simps)
      moreover have "1 \<le> real j" using Suc by simp
      ultimately have "70 \<le> n_x n - n_x a" by (simp add: COLUMN_GAP_def)
      then have "10 \<le> \<bar>n_x n - n_x a\<bar>" by simp
      then have "10 * 10 \<le> (n_x n - n_x a) * (n_x n - n_x a) + (n_y n - n_y a) * (n_y n - n_y a)"
        by (intro far_apart) simp_all
      then show "(NODE_RADIUS + 4) * (NODE_RADIUS + 4)
        \<le> (n_x n - n_x a) * (n_x n - n_x a) + (n_y n - n_y a) * (n_y n - n_y a)"
        by (simp add: NODE_RADIUS_def)
    qed
    then have miss: "findInColumn (c_nodes c) (n_x n) (n_y n) = None" by (rule findInColumn_None)
    have 1: "\<forall>i<length cols. \<forall>a\<in>set (c_nodes (cols ! i)). n_x a = columnX (Suc k + i)"
      using Cons.prems(1) by force
    have 2: "\<forall>i<length cols. sorted_wrt (\<lambda>a b. n_y a + MIN_LOGIT_GAP \<le> n_y b) (c_nodes (cols ! i))"
      using Cons.prems(2) by force
    have 3: "j' < length cols" "n \<in> set (c_nodes (cols ! j'))" using Cons.prems(3,4) Suc by simp_all
    from Cons.IH [OF 1 2 3] miss show ?thesis by simp
  qed
qed

lemma laidOut_center:
  assumes "laidOut s" and "j < length (columns s)" and "n \<in> set (c_nodes (columns s ! j))"
  shows "hitTest s (n_x n) (n_y n) = Some (HitNode n)"
proof -
  have nx: "n_x n = columnX j" using assms by (auto simp: laidOut_def)
  have "\<forall>b\<in>set (outputBars s).
      64 \<le> (n_x n - b_x b) * (n_x n - b_x b) + (n_y n - b_y b) * (n_y n - b_y b)"
  proof
    fix b assume "b \<in> set (outputBars s)"
    then obtain i where "i < length (outputBars s)" "b = outputBars s ! i"
      by (auto simp: in_set_conv_nth)
    then have "columnX (length (columns s)) \<le> b_x b" using assms(1) by (simp add: laidOut_def)
    moreover have "columnX j + COLUMN_GAP \<le> columnX (length (columns s))"
    proof -
      have "real j + 1 \<le> real (length (columns s))" using assms(2) by simp
      then have "(real j + 1) * COLUMN_GAP \<le> real (length (columns s)) * COLUMN_GAP"
        by (intro mult_right_mono) (simp_all add: COLUMN_GAP_def)
      then show ?thesis by (simp add: columnX_def algebra_simps)
    qed
    ultimately have "8 \<le> \<bar>n_x n - b_x b\<bar>" using nx by (simp add: COLUMN_GAP_def)
    then have "8 * 8 \<le> (n_x n - b_x b) * (n_x n - b_x b) + (n_y n - b_y b) * (n_y n - b_y b)"
      by (intro far_apart) simp_all
    then show "64 \<le> (n_x n - b_x b) * (n_x n - b_x b) + (n_y n - b_y b) * (n_y n - b_y b)"
      by simp
  qed
  then have bars: "findBar (outputBars s) (n_x n) (n_y n) = None" by (rule findBar_None)
  have "findNode (columns s) (n_x n) (n_y n) = Some (HitNode n)"
    using assms by (intro findNode_grid [where k = 0 and j = j]) (simp_all add: laidOut_def)
  with bars show ?thesis by (simp add: hitTest_def)
qed

subsection \<open>Every scene is laid out on the grid\<close>

lemma logitGap_ge: "MIN_LOGIT_GAP \<le> logitGap n m"
  by (simp add: logitGap_def)

lemma sorted_rows:
  assumes "MIN_LOGIT_GAP \<le> g" and "\<And>i. n_y (f i) = y0 + real i * g"
  shows "sorted_wrt (\<lambda>a b. n_y a + MIN_LOGIT_GAP \<le> n_y b) (map f [0..<m])"
proof -
  have g0: "0 \<le> g" using assms(1) by (simp add: MIN_LOGIT_GAP_def)
  have row: "n_y (f i) + MIN_LOGIT_GAP \<le> n_y (f j)" if "i < j" for i j
  proof -
    have "real i + 1 \<le> real j" using that by simp
    then have "(real i + 1) * g \<le> real j * g" using g0 by (rule mult_right_mono)
    then have "real i * g + g \<le> real j * g" by (simp only: distrib_right mult_1)
    then have "y0 + real i * g + MIN_LOGIT_GAP \<le> y0 + real j * g" using assms(1) by linarith
    then show ?thesis by (simp only: assms(2))
  qed
  have "sorted_wrt (<) [0..<m]" by simp
  then have "sorted_wrt (\<lambda>i j. n_y (f i) + MIN_LOGIT_GAP \<le> n_y (f j)) [0..<m]"
    by (rule sorted_wrt_mono_rel [rotated]) (rule row)
  then show ?thesis by (simp only: sorted_wrt_map)
qed

lemma builtColumns_length:
  "length (builtColumns trim fmt tokens numLayers predictions) = numLayers + 3"
  unfolding builtColumns_def by (simp only: length_append length_map length_upt list.size)

lemma builtColumns_nodes:
  "c_nodes (builtColumns trim fmt tokens numLayers predictions ! 0)
     = map (tokenNode trim (columnX 0) (TOP_PADDING + 30) tokens) [0..<length tokens]"
  "c_nodes (builtColumns trim fmt tokens numLayers predictions ! Suc 0)
     = map (embedNode trim (columnX 1) (TOP_PADDING + 30) tokens) [0..<length tokens]"
  "l < numLayers \<Longrightarrow>
   c_nodes (builtColumns trim fmt tokens numLayers predictions ! Suc (Suc l))
     = map (layerNode (columnX (l + 2)) (TOP_PADDING + 30) l) [0..<length tokens]"
  "c_nodes (builtColumns trim fmt tokens numLayers predictions ! Suc (Suc numLayers))
     = map (logitNode fmt (columnX (numLayers + 2)) (TOP_PADDING + 30)
              (logitGap (length tokens) (length predictions)) predictions)
         [0..<length predictions]"
proof -
  let ?layers = "map (\<lambda>l. layerColumn (columnX (l + 2)) (TOP_PADDING + 30) (length tokens) l)
                   [0..<numLayers]"
  let ?logits = "\<lparr>c_label = ''LOGITS'', c_color = ''#f472b6'',
            c_nodes = map (logitNode fmt (columnX (numLayers + 2)) (TOP_PADDING + 30)
                             (logitGap (length tokens) (length predictions)) predictions)
                        [0..<length predictions],
            c_type = LogitT\<rparr>"
  have ss: "builtColumns trim fmt tokens numLayers predictions ! Suc (Suc l)
      = (?layers @ [?logits]) ! l" for l
    unfolding builtColumns_def by (simp only: append.simps nth_Cons_Suc)
  show "c_nodes (builtColumns trim fmt tokens numLayers predictions ! 0)
     = map (tokenNode trim (columnX 0) (TOP_PADDING + 30) tokens) [0..<length tokens]"
    unfolding builtColumns_def by (simp only: append.simps nth_Cons_0 column.select_convs)
  show "c_nodes (builtColumns trim fmt tokens numLayers predictions ! Suc 0)
     = map (embedNode trim (columnX 1) (TOP_PADDING + 30) tokens) [0..<length tokens]"
    unfolding builtColumns_def by (simp only: append.simps nth_Cons_0 nth_Cons_Suc column.select_convs)
  have len: "length ?layers = numLayers" by simp
  show "c_nodes (builtColumns trim fmt tokens numLayers predictions ! Suc (Suc l))
     = map (layerNode (columnX (l + 2)) (TOP_PADDING + 30) l) [0..<length tokens]"
    if "l < numLayers"
  proof -
    have "(?layers @ [?logits]) ! l = ?layers ! l" using that len by (simp only: nth_append if_True)
    also have "\<dots> = layerColumn (columnX (l + 2)) (TOP_PADDING + 30) (length tokens) l"
      using that by simp
    finally have "(?layers @ [?logits]) ! l
        = layerColumn (columnX (l + 2)) (TOP_PADDING + 30) (length tokens) l" .
    then show ?thesis unfolding ss by (simp only: layerColumn_def column.select_convs)
  qed
  have "(?layers @ [?logits]) ! length ?layers = ?logits"
    by (rule nth_append_length)
  then have "(?layers @ [?logits]) ! numLayers = ?logits"
    unfolding len .
  then show "c_nodes (builtColumns trim fmt tokens numLayers predictions ! Suc (Suc numLayers))
     = map (logitNode fmt (columnX (numLayers + 2)) (TOP_PADDING + 30)
              (logitGap (length tokens) (length predictions)) predictions)
         [0..<length predictions]"
    unfolding ss by (simp only: column.select_convs)
qed

lemma column_cases:
  assumes "j < numLayers + 3"
  obtains "j = 0" | "j = Suc 0" | l where "j = Suc (Suc l)" "l < numLayers"
    | "j = Suc (Suc numLayers)"
proof (cases j)
  case 0
  then show ?thesis using that by blast
next
  case (Suc j1)
  show ?thesis
  proof (cases j1)
    case 0
    with Suc show ?thesis using that by blast
  next
    case (Suc l)
    with \<open>j = Suc j1\<close> have j: "j = Suc (Suc l)" by simp
    with assms have "l < numLayers \<or> l = numLayers" by auto
    with j show ?thesis using that by blast
  qed
qed

lemma builtColumns_x:
  assumes "j < numLayers + 3"
  shows "\<forall>n\<in>set (c_nodes (builtColumns trim fmt tokens numLayers predictions ! j)). n_x n = columnX j"
  using assms
proof (cases rule: column_cases)
  case 1
  then show ?thesis by (simp add: builtColumns_nodes tokenNode_def)
next
  case 2
  then show ?thesis by (simp add: builtColumns_nodes embedNode_def)
next
  case (3 l)
  then show ?thesis by (simp add: builtColumns_nodes layerNode_def)
next
  case 4
  then show ?thesis by (simp add: builtColumns_nodes logitNode_def)
qed

lemma builtColumns_sorted:
  assumes "j < numLayers + 3"
  shows "sorted_wrt (\<lambda>a b. n_y a + MIN_LOGIT_GAP \<le> n_y b)
           (c_nodes (builtColumns trim fmt tokens numLayers predictions ! j))"
proof -
  have rg: "MIN_LOGIT_GAP \<le> ROW_GAP" by (simp add: MIN_LOGIT_GAP_def ROW_GAP_def)
  have s1: "sorted_wrt (\<lambda>a b. n_y a + MIN_LOGIT_GAP \<le> n_y b)
      (map (tokenNode trim x (TOP_PADDING + 30) tokens) [0..<m])" for x m
    by (rule sorted_rows [OF rg, where ?y0.0 = "TOP_PADDING + 30"]) (simp add: tokenNode_def)
  have s2: "sorted_wrt (\<lambda>a b. n_y a + MIN_LOGIT_GAP \<le> n_y b)
      (map (embedNode trim x (TOP_PADDING + 30) tokens) [0..<m])" for x m
    by (rule sorted_rows [OF rg, where ?y0.0 = "TOP_PADDING + 30"]) (simp add: embedNode_def)
  have s3: "sorted_wrt (\<lambda>a b. n_y a + MIN_LOGIT_GAP \<le> n_y b)
      (map (layerNode x (TOP_PADDING + 30) l) [0..<m])" for x l m
    by (rule sorted_rows [OF rg, where ?y0.0 = "TOP_PADDING + 30"]) (simp add: layerNode_def)
  have s4: "sorted_wrt (\<lambda>a b. n_y a + MIN_LOGIT_GAP \<le> n_y b)
      (map (logitNode fmt x (TOP_PADDING + 30) (logitGap a b) predictions) [0..<m])" for x a b m
    by (rule sorted_rows [OF logitGap_ge [of a b], where ?y0.0 = "TOP_PADDING + 30"])
      (simp add: logitNode_def)
  from assms show ?thesis
  proof (cases rule: column_cases)
    case 1
    then show ?thesis using s1 by (simp add: builtColumns_nodes)
  next
    case 2
    then show ?thesis using s2 by (simp add: builtColumns_nodes)
  next
    case (3 l)
    then show ?thesis using s3 by (simp add: builtColumns_nodes)
  next
    case 4
    then show ?thesis using s4 by (simp add: builtColumns_nodes)
  qed
qed

lemma laidOut_build: "laidOut (build trim fmt canvasW canvasH tokens modelCfg predictions s)"
proof -
  let ?s = "build trim fmt canvasW canvasH tokens modelCfg predictions s"
  let ?L = "layers modelCfg"
  have cols: "columns ?s = builtColumns trim fmt tokens ?L predictions" by (rule columns_build)
  have bars: "outputBars ?s = builtBars (length tokens) ?L predictions" by (rule outputBars_build)
  have len: "length (columns ?s) = ?L + 3" by (simp add: cols builtColumns_length)
  have a: "\<forall>n\<in>set (c_nodes (columns ?s ! j)). n_x n = columnX j"
    and b: "sorted_wrt (\<lambda>a b. n_y a + MIN_LOGIT_GAP \<le> n_y b) (c_nodes (columns ?s ! j))"
    if "j < length (columns ?s)" for j
  proof -
    from that len have j: "j < ?L + 3" by simp
    show "\<forall>n\<in>set (c_nodes (columns ?s ! j)). n_x n = columnX j"
      unfolding cols using j by (rule builtColumns_x)
    show "sorted_wrt (\<lambda>a b. n_y a + MIN_LOGIT_GAP \<le> n_y b) (c_nodes (columns ?s ! j))"
      unfolding cols using j by (rule builtColumns_sorted)
  qed
  have c: "columnX (length (columns ?s)) \<le> b_x (outputBars ?s ! i)"
    and d: "b_isWinner (outputBars ?s ! i) = (i = 0)" if "i < length (outputBars ?s)" for i
    using that
    by (simp_all add: bars len builtBars_def outputBar_def columnX_def COLUMN_GAP_def algebra_simps)
  show ?thesis
    unfolding laidOut_def using a b c d by blast
qed

lemma laidOut_scene:
  assumes "laidOut s" and "columns s' = columns s" and "outputBars s' = outputBars s"
  shows "laidOut s'"
  using assms by (simp add: laidOut_def)

lemma laidOut_clear: "laidOut (clear s)"
  by (simp add: laidOut_def clear_def)

lemma laidOut_updatePredictions:
  assumes "laidOut s"
  shows "laidOut (updatePredictions fmt predictions s)"
proof (cases "columns s = []")
  case True
  then show ?thesis using assms by (simp add: updatePredictions_def)
next
  case False
  define cols where "cols = (case findLogit (columns s) of
                       None \<Rightarrow> columns s
                     | Some k \<Rightarrow> (columns s)[k := (columns s ! k)
                         \<lparr>c_nodes := patchNodes fmt predictions (c_nodes (columns s ! k))\<rparr>])"
  have s': "columns (updatePredictions fmt predictions s) = cols"
    "outputBars (updatePredictions fmt predictions s) = patchBars predictions (outputBars s)"
    using False by (simp_all add: updatePredictions_def cols_def Let_def)
  have len: "length cols = length (columns s)"
    by (simp add: cols_def split: option.splits)
  have xs: "map n_x (c_nodes (cols ! j)) = map n_x (c_nodes (columns s ! j))"
    and ys: "map n_y (c_nodes (cols ! j)) = map n_y (c_nodes (columns s ! j))"
    if "j < length (columns s)" for j
  proof -
    show "map n_x (c_nodes (cols ! j)) = map n_x (c_nodes (columns s ! j))"
    proof (cases "findLogit (columns s)")
      case None
      then show ?thesis by (simp add: cols_def)
    next
      case (Some k)
      then have "k < length (columns s)" using findLogit_Some by blast
      then show ?thesis
        using Some that by (cases "j = k") (simp_all add: cols_def map_xy_patchNodes)
    qed
    show "map n_y (c_nodes (cols ! j)) = map n_y (c_nodes (columns s ! j))"
    proof (cases "findLogit (columns s)")
      case None
      then show ?thesis by (simp add: cols_def)
    next
      case (Some k)
      then have "k < length (columns s)" using findLogit_Some by blast
      then show ?thesis
        using Some that by (cases "j = k") (simp_all add: cols_def map_xy_patchNodes)
    qed
  qed
  have a: "\<forall>n\<in>set (c_nodes (cols ! j)). n_x n = columnX j" if "j < length (columns s)" for j
  proof
    fix n assume "n \<in> set (c_nodes (cols ! j))"
    then have "n_x n \<in> set (map n_x (c_nodes (cols ! j)))" by simp
    then have "n_x n \<in> set (map n_x (c_nodes (columns s ! j)))" using xs [OF that] by simp
    then show "n_x n = columnX j" using assms that by (auto simp: laidOut_def)
  qed
  have b: "sorted_wrt (\<lambda>a b. n_y a + MIN_LOGIT_GAP \<le> n_y b) (c_nodes (cols ! j))"
    if "j < length (columns s)" for j
  proof -
    have "sorted_wrt (\<lambda>y y'. y + MIN_LOGIT_GAP \<le> y') (map n_y (c_nodes (columns s ! j)))"
      using assms that by (simp add: laidOut_def sorted_wrt_map)
    then have "sorted_wrt (\<lambda>y y'. y + MIN_LOGIT_GAP \<le> y') (map n_y (c_nodes (cols ! j)))"
      using ys [OF that] by simp
    then show ?thesis by (simp add: sorted_wrt_map)
  qed
  have c: "columnX (length cols) \<le> b_x (patchBars predictions (outputBars s) ! i)"
    and d: "b_isWinner (patchBars predictions (outputBars s) ! i) = (i = 0)"
    if "i < length (outputBars s)" for i
    using that assms by (simp_all add: nth_patchBars patchBar_def len laidOut_def)
  show ?thesis
    unfolding laidOut_def s' using a b c d len by (simp add: length_patchBars)
qed

lemma step_laidOut: "laidOut s \<Longrightarrow> laidOut (step trim fmt x s)"
proof (cases x)
  case (Build cw ch tokens cfg preds)
  then show ?thesis by (simp add: laidOut_build)
next
  case (UpdatePredictions preds)
  assume "laidOut s"
  then show ?thesis using UpdatePredictions by (simp add: laidOut_updatePredictions)
next
  case (Wheel e)
  assume "laidOut s"
  then show ?thesis using Wheel
    by (elim laidOut_scene) (simp_all add: handleWheel_def Let_def)
next
  case (MouseDown e)
  assume "laidOut s"
  then show ?thesis using MouseDown
    by (elim laidOut_scene) (simp_all add: handleMouseDown_def)
next
  case (MouseMove e)
  assume "laidOut s"
  then show ?thesis using MouseMove
    by (elim laidOut_scene) (simp_all add: handleMouseMove_def)
next
  case MouseUp
  assume "laidOut s"
  then show ?thesis using MouseUp
    by (elim laidOut_scene) (simp_all add: handleMouseUp_def)
next
  case MouseLeave
  assume "laidOut s"
  then show ?thesis using MouseLeave
    by (elim laidOut_scene) (simp_all add: handleMouseLeave_def)
next
  case ZoomIn
  assume "laidOut s"
  then show ?thesis using ZoomIn
    by (elim laidOut_scene) (simp_all add: zoomIn_def)
next
  case ZoomOut
  assume "laidOut s"
  then show ?thesis using ZoomOut
    by (elim laidOut_scene) (simp_all add: zoomOut_def)
next
  case Clear
  then show ?thesis by (simp add: laidOut_clear)
next
  case (ResetView cw ch)
  assume "laidOut s"
  then show ?thesis using ResetView
    by (elim laidOut_scene) (simp_all add: columns_resetView)
next
  case Frame
  assume "laidOut s"
  then show ?thesis using Frame
    by (elim laidOut_scene) (simp_all add: columns_animate)
qed

lemma runOps_laidOut: "laidOut s \<Longrightarrow> laidOut (runOps trim fmt ops s)"
  unfolding runOps_def
  by (induction ops arbitrary: s) (simp_all add: step_laidOut)

lemma laidOut_init: "laidOut initViz"
  by (simp add: laidOut_def initViz_def)

subsection \<open>Hit testing\<close>

lemma reachable_center:
  assumes "laidOut s" and "inBounds s" and "c \<in> set (columns s)" and "n \<in> set (c_nodes c)"
  shows "hitTest s (n_x n) (n_y n) = Some (HitNode n)"
    and "clientX e - rectLeft e = n_x n * zoom s + panX s
         \<and> clientY e - rectTop e = n_y n * zoom s + panY s \<and> \<not> isDragging s
         \<longrightarrow> hoveredNode (handleMouseMove e s) = Some (HitNode n)"
proof -
  from assms(3) obtain j where j: "j < length (columns s)" "c = columns s ! j"
    by (auto simp: in_set_conv_nth)
  with assms(4) have "n \<in> set (c_nodes (columns s ! j))" by simp
  with assms(1) j(1) show hit: "hitTest s (n_x n) (n_y n) = Some (HitNode n)"
    by (rule laidOut_center)
  have z: "zoom s \<noteq> 0" using assms(2) by (auto simp: inBounds_def inRange_def)
  show "clientX e - rectLeft e = n_x n * zoom s + panX s
         \<and> clientY e - rectTop e = n_y n * zoom s + panY s \<and> \<not> isDragging s
         \<longrightarrow> hoveredNode (handleMouseMove e s) = Some (HitNode n)"
  proof
    assume a: "clientX e - rectLeft e = n_x n * zoom s + panX s
         \<and> clientY e - rectTop e = n_y n * zoom s + panY s \<and> \<not> isDragging s"
    then have "(clientX e - rectLeft e - panX s) / zoom s = n_x n"
      "(clientY e - rectTop e - panY s) / zoom s = n_y n"
      using z by simp_all
    then have "found e s = Some (HitNode n)" using hit by (simp add: found_def)
    then show "hoveredNode (handleMouseMove e s) = Some (HitNode n)"
      using a by (simp add: handleMouseMove_def)
  qed
qed

text \<open>
  Claim C8. The hover hit test returns the first output bar within distance 8 of the
  pointer, otherwise the first node, in column order, within distance \<open>NODE_RADIUS + 4\<close>
  (more than the drawn radius \<open>NODE_RADIUS * colProgress\<close>), otherwise nothing. A pointer
  at distance at least the hit radius from every bar and node hits nothing. In every
  scene the operations of viz.js can produce, the centre of a node resolves to that node,
  also through the pointer transform of \<open>handleMouseMove\<close> when no drag is in progress.
\<close>

theorem hover_hit_test:
  "hitTest s mx my =
     (case find (\<lambda>b. distance mx my (b_x b) (b_y b) < 8) (outputBars s) of
        Some b \<Rightarrow> Some (HitBar b)
      | None \<Rightarrow> map_option HitNode
          (find (\<lambda>n. distance mx my (n_x n) (n_y n) < NODE_RADIUS + 4)
             (concat (map c_nodes (columns s)))))
   \<and> NODE_RADIUS * clamp p 0 1 < NODE_RADIUS + 4
   \<and> ((\<forall>b\<in>set (outputBars s). 8 \<le> distance mx my (b_x b) (b_y b))
        \<and> (\<forall>c\<in>set (columns s). \<forall>n\<in>set (c_nodes c).
              NODE_RADIUS + 4 \<le> distance mx my (n_x n) (n_y n))
        \<longrightarrow> hitTest s mx my = None)
   \<and> (let u = runOps trim fmt ops initViz
      in \<forall>c\<in>set (columns u). \<forall>n\<in>set (c_nodes c).
           hitTest u (n_x n) (n_y n) = Some (HitNode n)
         \<and> (clientX e - rectLeft e = n_x n * zoom u + panX u
              \<and> clientY e - rectTop e = n_y n * zoom u + panY u \<and> \<not> isDragging u
              \<longrightarrow> hoveredNode (handleMouseMove e u) = Some (HitNode n)))"
proof -
  let ?u = "runOps trim fmt ops initViz"
  have lo: "laidOut ?u" using laidOut_init by (rule runOps_laidOut)
  have "inBounds initViz" by (simp add: inBounds_def inRange_def initViz_def)
  then have ib: "inBounds ?u" by (rule runOps_inBounds)
  have "\<forall>c\<in>set (columns ?u). \<forall>n\<in>set (c_nodes c).
           hitTest ?u (n_x n) (n_y n) = Some (HitNode n)
         \<and> (clientX e - rectLeft e = n_x n * zoom ?u + panX ?u
              \<and> clientY e - rectTop e = n_y n * zoom ?u + panY ?u \<and> \<not> isDragging ?u
              \<longrightarrow> hoveredNode (handleMouseMove e ?u) = Some (HitNode n))"
    using reachable_center [OF lo ib] by blast
  then show ?thesis
    using hitTest_find [of s mx my] hitTest_far [of s mx my]
    by (simp add: Let_def NODE_RADIUS_def clamp_def min_def max_def)
qed

theorem hover_hit_test_witness:
  "(let u = runOps (\<lambda>t. t) (\<lambda>v d. [])
      [Build 800 600 [\<lparr>tok_id = 1, tok_text = ''a''\<rparr>]
         \<lparr>layers = 0, hidden_dim = 768, ffn_dim = 3072, vocab_size = 50257, heads = 12\<rparr>
         [\<lparr>word = ''b'', prob = 1, logit = 2, tokenId = 7, inNucleus = True, isSampled = True,
           nucleusProb = 1\<rparr>]] initViz;
        n = \<lparr>n_x = 170, n_y = 80, n_label = [], n_id = Some 1, n_type = EmbeddingT,
                     n_index = 0, n_tokenText = Some ''a'', n_layer = None, n_word = None,
                     n_prob = None, n_logit = None\<rparr>
    in (\<exists>c\<in>set (columns u). n \<in> set (c_nodes c))
     \<and> hitTest u 170 80 = Some (HitNode n)
     \<and> hitTest u 0 0 = None)"
proof -
  define u where "u = runOps (\<lambda>t. t) (\<lambda>v d. [])
      [Build 800 600 [\<lparr>tok_id = 1, tok_text = ''a''\<rparr>]
         \<lparr>layers = 0, hidden_dim = 768, ffn_dim = 3072, vocab_size = 50257, heads = 12\<rparr>
         [\<lparr>word = ''b'', prob = 1, logit = 2, tokenId = 7, inNucleus = True, isSampled = True,
           nucleusProb = 1\<rparr>]] initViz"
  define n where "n = \<lparr>n_x = 170, n_y = 80, n_label = [], n_id = Some 1, n_type = EmbeddingT,
                     n_index = 0, n_tokenText = Some ''a'', n_layer = None, n_word = None,
                     n_prob = None, n_logit = None\<rparr>"
  note sc = example_scene [folded u_def]
  have mem: "\<exists>c\<in>set (columns u). n \<in> set (c_nodes c)"
    by (simp add: sc(1) n_def)
  have farb: "\<forall>b\<in>set (outputBars u). 8 \<le> distance 0 0 (b_x b) (b_y b)"
    by (simp add: sc(2) distance_ge_iff)
  have farn: "\<forall>c\<in>set (columns u). \<forall>n\<in>set (c_nodes c).
      NODE_RADIUS + 4 \<le> distance 0 0 (n_x n) (n_y n)"
    by (simp add: sc(1) distance_ge_iff NODE_RADIUS_def)
  note T = hover_hit_test [of u 0 0 1 "\<lambda>t. t" "\<lambda>v d. []"
      "[Build 800 600 [\<lparr>tok_id = 1, tok_text = ''a''\<rparr>]
         \<lparr>layers = 0, hidden_dim = 768, ffn_dim = 3072, vocab_size = 50257, heads = 12\<rparr>
         [\<lparr>word = ''b'', prob = 1, logit = 2, tokenId = 7, inNucleus = True, isSampled = True,
           nucleusProb = 1\<rparr>]]"
      "\<lparr>clientX = 0, clientY = 0, deltaY = 0, rectLeft = 0, rectTop = 0\<rparr>",
      folded u_def, unfolded Let_def]
  from T farb farn have far: "hitTest u 0 0 = None" by blast
  from T have center: "\<forall>c\<in>set (columns u). \<forall>n\<in>set (c_nodes c).
           hitTest u (n_x n) (n_y n) = Some (HitNode n)"
    by blast
  from center mem have "hitTest u (n_x n) (n_y n) = Some (HitNode n)" by blast
  then have "hitTest u 170 80 = Some (HitNode n)" by (simp add: n_def)
  with mem far show ?thesis unfolding Let_def u_def n_def by blast
qed

subsection \<open>The partial update\<close>

text \<open>
  Claim C9. In every state the operations of viz.js can produce, \<open>updatePredictions\<close>
  keeps the number of columns, of nodes in each column and of bars, the label, colour
  and type of each column, the position of every node and bar, and the camera. Node \<open>i\<close>
  of the logit column gets label, word, prob and logit of prediction \<open>i\<close>, bar \<open>i\<close> gets
  word, prob, logit, inNucleus, isSampled and nucleusProb of prediction \<open>i\<close>, when there
  is a prediction \<open>i\<close>; predictions beyond the existing nodes and bars are ignored, and
  nodes and bars beyond the predictions keep their data.
\<close>

theorem updatePredictions_patches:
  "(let s = runOps trim fmt ops initViz;
        s' = updatePredictions fmt predictions s
    in length (columns s') = length (columns s)
     \<and> length (outputBars s') = length (outputBars s)
     \<and> camera s' = camera s
     \<and> (\<forall>j<length (columns s).
           c_label (columns s' ! j) = c_label (columns s ! j)
         \<and> c_color (columns s' ! j) = c_color (columns s ! j)
         \<and> c_type (columns s' ! j) = c_type (columns s ! j)
         \<and> length (c_nodes (columns s' ! j)) = length (c_nodes (columns s ! j))
         \<and> (\<forall>i<length (c_nodes (columns s ! j)).
               n_x (c_nodes (columns s' ! j) ! i) = n_x (c_nodes (columns s ! j) ! i)
             \<and> n_y (c_nodes (columns s' ! j) ! i) = n_y (c_nodes (columns s ! j) ! i)
             \<and> c_nodes (columns s' ! j) ! i =
                 (if findLogit (columns s) = Some j \<and> i < length predictions
                  then (c_nodes (columns s ! j) ! i)
                         \<lparr>n_label := fmt (logit (predictions ! i)) 2,
                          n_word := Some (word (predictions ! i)),
                          n_prob := Some (prob (predictions ! i)),
                          n_logit := Some (logit (predictions ! i))\<rparr>
                  else c_nodes (columns s ! j) ! i)))
     \<and> (\<forall>i<length (outputBars s).
           b_x (outputBars s' ! i) = b_x (outputBars s ! i)
         \<and> b_y (outputBars s' ! i) = b_y (outputBars s ! i)
         \<and> outputBars s' ! i =
             (if columns s \<noteq> [] \<and> i < length predictions
              then (outputBars s ! i)
                     \<lparr>b_word := word (predictions ! i), b_prob := prob (predictions ! i),
                      b_logit := logit (predictions ! i),
                      b_inNucleus := inNucleus (predictions ! i),
                      b_isSampled := isSampled (predictions ! i),
                      b_nucleusProb := nucleusProb (predictions ! i)\<rparr>
              else outputBars s ! i)))"
proof -
  let ?s = "runOps trim fmt ops initViz"
  let ?s' = "updatePredictions fmt predictions ?s"
  have lo: "laidOut ?s" using laidOut_init by (rule runOps_laidOut)
  have cols: "c_label (columns ?s' ! j) = c_label (columns ?s ! j)
         \<and> c_color (columns ?s' ! j) = c_color (columns ?s ! j)
         \<and> c_type (columns ?s' ! j) = c_type (columns ?s ! j)
         \<and> length (c_nodes (columns ?s' ! j)) = length (c_nodes (columns ?s ! j))
         \<and> (\<forall>i<length (c_nodes (columns ?s ! j)).
               n_x (c_nodes (columns ?s' ! j) ! i) = n_x (c_nodes (columns ?s ! j) ! i)
             \<and> n_y (c_nodes (columns ?s' ! j) ! i) = n_y (c_nodes (columns ?s ! j) ! i)
             \<and> c_nodes (columns ?s' ! j) ! i =
                 (if findLogit (columns ?s) = Some j \<and> i < length predictions
                  then (c_nodes (columns ?s ! j) ! i)
                         \<lparr>n_label := fmt (logit (predictions ! i)) 2,
                          n_word := Some (word (predictions ! i)),
                          n_prob := Some (prob (predictions ! i)),
                          n_logit := Some (logit (predictions ! i))\<rparr>
                  else c_nodes (columns ?s ! j) ! i))"
    if "j < length (columns ?s)" for j
    unfolding updatePredictions_columns [OF that]
    by (simp add: length_patchNodes nth_patchNodes patchNode_def)
  have bars: "b_x (outputBars ?s' ! i) = b_x (outputBars ?s ! i)
         \<and> b_y (outputBars ?s' ! i) = b_y (outputBars ?s ! i)
         \<and> outputBars ?s' ! i =
             (if columns ?s \<noteq> [] \<and> i < length predictions
              then (outputBars ?s ! i)
                     \<lparr>b_word := word (predictions ! i), b_prob := prob (predictions ! i),
                      b_logit := logit (predictions ! i),
                      b_inNucleus := inNucleus (predictions ! i),
                      b_isSampled := isSampled (predictions ! i),
                      b_nucleusProb := nucleusProb (predictions ! i)\<rparr>
              else outputBars ?s ! i)"
    if "i < length (outputBars ?s)" for i
  proof -
    have "b_isWinner (outputBars ?s ! i) = (i = 0)" using lo that by (simp add: laidOut_def)
    from updatePredictions_bars [OF that this, of fmt predictions] show ?thesis by simp
  qed
  show ?thesis
    unfolding Let_def
    using cols bars updatePredictions_lengths [of fmt predictions ?s]
      camera_updatePredictions [of fmt predictions ?s]
    by blast
qed

theorem updatePredictions_patches_witness:
  "(let s = runOps (\<lambda>t. t) (\<lambda>v d. [])
      [Build 800 600 [\<lparr>tok_id = 1, tok_text = ''a''\<rparr>]
         \<lparr>layers = 0, hidden_dim = 768, ffn_dim = 3072, vocab_size = 50257, heads = 12\<rparr>
         [\<lparr>word = ''b'', prob = 1, logit = 2, tokenId = 7, inNucleus = True, isSampled = True,
           nucleusProb = 1\<rparr>]] initViz;
        s' = updatePredictions (\<lambda>v d. [])
               [\<lparr>word = ''c'', prob = 1 / 2, logit = 3, tokenId = 9, inNucleus = True,
                 isSampled = False, nucleusProb = 1\<rparr>,
                \<lparr>word = ''d'', prob = 1 / 2, logit = 3, tokenId = 4, inNucleus = True,
                 isSampled = True, nucleusProb = 1\<rparr>] s
    in (2::nat) < length (columns s) \<and> (0::nat) < length (c_nodes (columns s ! 2))
     \<and> (0::nat) < length (outputBars s)
     \<and> length (outputBars s') = 1
     \<and> n_x (c_nodes (columns s' ! 2) ! 0) = 240
     \<and> n_word (c_nodes (columns s' ! 2) ! 0) = Some ''c''
     \<and> b_x (outputBars s' ! 0) = 320
     \<and> b_word (outputBars s' ! 0) = ''c'')"
proof -
  define s where "s = runOps (\<lambda>t. t) (\<lambda>v d. [])
      [Build 800 600 [\<lparr>tok_id = 1, tok_text = ''a''\<rparr>]
         \<lparr>layers = 0, hidden_dim = 768, ffn_dim = 3072, vocab_size = 50257, heads = 12\<rparr>
         [\<lparr>word = ''b'', prob = 1, logit = 2, tokenId = 7, inNucleus = True, isSampled = True,
           nucleusProb = 1\<rparr>]] initViz"
  define ps where "ps = [\<lparr>word = ''c'', prob = 1 / 2, logit = 3, tokenId = 9, inNucleus = True,
                 isSampled = False, nucleusProb = 1\<rparr>,
                \<lparr>word = ''d'', prob = 1 / 2, logit = 3, tokenId = 4, inNucleus = True,
                 isSampled = True, nucleusProb = (1::real)\<rparr>]"
  define s' where "s' = updatePredictions (\<lambda>v d. []) ps s"
  note sc = example_scene [folded s_def]
  have h1: "(2::nat) < length (columns s)" by (simp add: sc(1))
  have h2: "(0::nat) < length (c_nodes (columns s ! 2))" by (simp add: sc(1))
  have h3: "(0::nat) < length (outputBars s)" by (simp add: sc(2))
  have fl: "findLogit (columns s) = Some 2" by (simp add: sc(1))
  from updatePredictions_patches [of "\<lambda>t. t" "\<lambda>v d. []"
      "[Build 800 600 [\<lparr>tok_id = 1, tok_text = ''a''\<rparr>]
         \<lparr>layers = 0, hidden_dim = 768, ffn_dim = 3072, vocab_size = 50257, heads = 12\<rparr>
         [\<lparr>word = ''b'', prob = 1, logit = 2, tokenId = 7, inNucleus = True, isSampled = True,
           nucleusProb = 1\<rparr>]]" ps, folded s_def, unfolded Let_def, folded s'_def]
  have len: "length (outputBars s') = length (outputBars s)"
    and cols: "\<forall>j<length (columns s). \<forall>i<length (c_nodes (columns s ! j)).
               n_x (c_nodes (columns s' ! j) ! i) = n_x (c_nodes (columns s ! j) ! i)
             \<and> c_nodes (columns s' ! j) ! i =
                 (if findLogit (columns s) = Some j \<and> i < length ps
                  then (c_nodes (columns s ! j) ! i)
                         \<lparr>n_label := (\<lambda>v d. []) (logit (ps ! i)) 2,
                          n_word := Some (word (ps ! i)),
                          n_prob := Some (prob (ps ! i)),
                          n_logit := Some (logit (ps ! i))\<rparr>
                  else c_nodes (columns s ! j) ! i)"
    and bars: "\<forall>i<length (outputBars s).
           b_x (outputBars s' ! i) = b_x (outputBars s ! i)
         \<and> outputBars s' ! i =
             (if columns s \<noteq> [] \<and> i < length ps
              then (outputBars s ! i)
                     \<lparr>b_word := word (ps ! i), b_prob := prob (ps ! i),
                      b_logit := logit (ps ! i),
                      b_inNucleus := inNucleus (ps ! i),
                      b_isSampled := isSampled (ps ! i),
                      b_nucleusProb := nucleusProb (ps ! i)\<rparr>
              else outputBars s ! i)"
    by blast+
  from cols h1 h2 have "n_x (c_nodes (columns s' ! 2) ! 0) = n_x (c_nodes (columns s ! 2) ! 0)"
    and "c_nodes (columns s' ! 2) ! 0 =
                 (if findLogit (columns s) = Some 2 \<and> 0 < length ps
                  then (c_nodes (columns s ! 2) ! 0)
                         \<lparr>n_label := (\<lambda>v d. []) (logit (ps ! 0)) 2,
                          n_word := Some (word (ps ! 0)),
                          n_prob := Some (prob (ps ! 0)),
                          n_logit := Some (logit (ps ! 0))\<rparr>
                  else c_nodes (columns s ! 2) ! 0)"
    by blast+
  then have r1: "n_x (c_nodes (columns s' ! 2) ! 0) = 240"
    and r2: "n_word (c_nodes (columns s' ! 2) ! 0) = Some ''c''"
    by (simp_all add: fl sc(1) ps_def)
  from bars h3 have "b_x (outputBars s' ! 0) = b_x (outputBars s ! 0)"
    and "outputBars s' ! 0 =
             (if columns s \<noteq> [] \<and> 0 < length ps
              then (outputBars s ! 0)
                     \<lparr>b_word := word (ps ! 0), b_prob := prob (ps ! 0),
                      b_logit := logit (ps ! 0),
                      b_inNucleus := inNucleus (ps ! 0),
                      b_isSampled := isSampled (ps ! 0),
                      b_nucleusProb := nucleusProb (ps ! 0)\<rparr>
              else outputBars s ! 0)"
    by blast+
  then have r3: "b_x (outputBars s' ! 0) = 320" and r4: "b_word (outputBars s' ! 0) = ''c''"
    by (simp_all add: sc(1,2) ps_def)
  have r0: "length (outputBars s') = 1" using len by (simp add: sc(2))
  show ?thesis
    unfolding Let_def using h1 h2 h3 r0 r1 r2 r3 r4
    by (simp only: s_def s'_def ps_def simp_thms)
qed

end
